theory Spec2Isabelle
  imports Complex_Main "HOL-Library.Word" "HOL-Library.Monad_Syntax" "HOL-Library.Log_Nat"
begin

unbundle bit_operations_syntax

section \<open>Clipboard image decoder (internal/screenshot/clipboard.go)\<close>

subsection \<open>Data model\<close>

type_synonym byte = "8 word"

text \<open>
  The Go function returns either a result or one of its error values. The error of Go is
  a value made by \<^verbatim>\<open>errors.New\<close>; each message of the source is one constructor. The names of
  the specification are given beside them.
\<close>

datatype error =
    ErrNoImageInClipboard    \<comment> \<open>the package variable of that name; NotFound\<close>
  | ErrOpenClipboard         \<comment> \<open>"failed to open clipboard"; LockFailed\<close>
  | ErrLockData              \<comment> \<open>"failed to lock clipboard data"\<close>
  | ErrDataSize              \<comment> \<open>"failed to get clipboard data size"; SizeUnavailable\<close>
  | ErrTooLarge              \<comment> \<open>"clipboard image too large"; TooLarge\<close>
  | ErrInvalidDimensions     \<comment> \<open>"invalid image dimensions in clipboard"; InvalidDimensions\<close>
  | ErrPixelDataTooSmall     \<comment> \<open>"invalid clipboard data: pixel data smaller than expected"; InvalidLayout\<close>
  | ErrUnsupportedBitDepth   \<comment> \<open>"unsupported bit depth: ..."; UnsupportedDepth\<close>
  | ErrInvalidImageSize      \<comment> \<open>the \<^verbatim>\<open>FormatError\<close> "invalid image size: ..." of \<^verbatim>\<open>png.Encode\<close>\<close>

text \<open>
  Besides returning an error the function can leave the declared memory block through one of
  its raw pointer reads (\<open>OutOfBoundsRead\<close>: the behaviour of the program is then undefined and
  the model stops there), and \<^verbatim>\<open>image.NewRGBA\<close> panics on a rectangle whose byte count does
  not fit an \<^verbatim>\<open>int\<close> (\<open>Panic\<close>).
\<close>

datatype failure = Err error | OutOfBoundsRead | Panic

text \<open>\<^verbatim>\<open>image.RGBA\<close> of the Go standard library: the pixel bytes in R, G, B, A order, the
  stride in bytes, and the rectangle (\<open>Dx\<close> and \<open>Dy\<close> are its extent; the decoder makes it
  with \<^verbatim>\<open>image.Rect(0, 0, width, height)\<close>). The colour bytes of an \<^verbatim>\<open>image.RGBA\<close> are read by
  the library as premultiplied by alpha. \<^verbatim>\<open>image.NRGBA\<close> has the same fields, and its colour
  bytes are not premultiplied.\<close>

record RGBA =
  Pix :: "byte list"
  Stride :: int
  Dx :: int
  Dy :: int

type_synonym NRGBA = RGBA

text \<open>\<^verbatim>\<open>CaptureResult\<close> (capture.go). Its \<^verbatim>\<open>Data\<close> field is the base64 text of a PNG file.
  A PNG file stores the width, the height and, for every pixel, its colour and alpha, not
  premultiplied; the compressed stream and its base64 text are determined by these values
  and determine them. The model keeps them, as the \<^verbatim>\<open>image.NRGBA\<close> that the file stores
  (a file without alpha channel, which the encoder writes when every alpha is 255, stores
  the same pixels).\<close>

record CaptureResult =
  Width :: int
  Height :: int
  Data :: NRGBA

text \<open>
  What the platform hands to one call of \<^verbatim>\<open>GetClipboardImage\<close>: the answers of the Win32
  calls, and the locked memory block. The block is the list of its bytes, and its declared
  length (the value of \<^verbatim>\<open>GlobalSize\<close>) is the length of that list.
\<close>

record Clipboard =
  formatAvailable :: bool   \<comment> \<open>\<^verbatim>\<open>IsClipboardFormatAvailable(CF_DIB) != 0\<close>\<close>
  openOk :: bool            \<comment> \<open>\<^verbatim>\<open>OpenClipboard(0) != 0\<close>\<close>
  hData :: nat              \<comment> \<open>\<^verbatim>\<open>GetClipboardData(CF_DIB)\<close>, 0 is the null handle\<close>
  lockOk :: bool            \<comment> \<open>\<^verbatim>\<open>GlobalLock(hData) != 0\<close>\<close>
  block :: "byte list"      \<comment> \<open>the memory at \<^verbatim>\<open>ptr\<close>; \<^verbatim>\<open>GlobalSize(hData)\<close> is its length\<close>

text \<open>The platform calls the function makes, in order; \<^verbatim>\<open>defer\<close> runs at the return.\<close>

datatype call =
    LockOSThread | IsClipboardFormatAvailable | OpenClipboard | GetClipboardData
  | GlobalLock | GlobalSize | GlobalUnlock | CloseClipboard | UnlockOSThread

definition maxClipboardSize :: int where
  "maxClipboardSize = 100 * 1024 * 1024"

subsection \<open>Raw memory reads\<close>

text \<open>
  The program is built for 64-bit Windows, where \<^verbatim>\<open>int\<close> and \<^verbatim>\<open>uintptr\<close> are 64 bits wide:
  address arithmetic is arithmetic modulo \<open>2 ^ 64\<close>. An address
  is kept as its offset from \<^verbatim>\<open>ptr\<close>; since reduction modulo \<open>2 ^ 64\<close> commutes with sums
  and products, the offset is reduced once, at the access. A read is inside the block when
  the reduced offset is below the declared length.
\<close>

definition uintptr :: "int \<Rightarrow> int" where
  "uintptr v = v mod 2 ^ 64"

definition peek :: "byte list \<Rightarrow> int \<Rightarrow> byte option" where
  "peek mem a = (let off = uintptr a in
     if off < int (length mem) then Some (mem ! nat off) else None)"

text \<open>Little-endian fields of the header, read through the cast pointer.\<close>

definition le_u16 :: "byte list \<Rightarrow> int \<Rightarrow> int option" where
  "le_u16 mem a = (case (peek mem a, peek mem (a + 1)) of
     (Some b0, Some b1) \<Rightarrow> Some (uint b0 + 256 * uint b1)
   | _ \<Rightarrow> None)"

definition le_u32 :: "byte list \<Rightarrow> int \<Rightarrow> int option" where
  "le_u32 mem a = (case (peek mem a, peek mem (a + 1), peek mem (a + 2), peek mem (a + 3)) of
     (Some b0, Some b1, Some b2, Some b3) \<Rightarrow>
        Some (uint b0 + 256 * uint b1 + 65536 * uint b2 + 16777216 * uint b3)
   | _ \<Rightarrow> None)"

definition le_i32 :: "byte list \<Rightarrow> int \<Rightarrow> int option" where
  "le_i32 mem a = (case le_u32 mem a of
     Some u \<Rightarrow> Some (if u < 2 ^ 31 then u else u - 2 ^ 32)
   | None \<Rightarrow> None)"

text \<open>
  \<^verbatim>\<open>BITMAPINFOHEADER\<close>, and the 40 bytes of the struct in memory (fields in declaration
  order, little-endian, no padding).
\<close>

record BITMAPINFOHEADER =
  BiSize :: int
  BiWidth :: int
  BiHeight :: int
  BiPlanes :: int
  BiBitCount :: int
  BiCompression :: int
  BiSizeImage :: int
  BiXPelsPerMeter :: int
  BiYPelsPerMeter :: int
  BiClrUsed :: int
  BiClrImportant :: int

definition bytes16 :: "int \<Rightarrow> byte list" where
  "bytes16 v = [word_of_int v, word_of_int (v div 256)]"

definition bytes32 :: "int \<Rightarrow> byte list" where
  "bytes32 v = [word_of_int v, word_of_int (v div 256), word_of_int (v div 65536),
                word_of_int (v div 16777216)]"

definition headerBytes :: "BITMAPINFOHEADER \<Rightarrow> byte list" where
  "headerBytes h =
     bytes32 (BiSize h) @ bytes32 (BiWidth h) @ bytes32 (BiHeight h) @ bytes16 (BiPlanes h) @
     bytes16 (BiBitCount h) @ bytes32 (BiCompression h) @ bytes32 (BiSizeImage h) @
     bytes32 (BiXPelsPerMeter h) @ bytes32 (BiYPelsPerMeter h) @ bytes32 (BiClrUsed h) @
     bytes32 (BiClrImportant h)"

text \<open>
  The fields the function reads through the cast pointer \<^verbatim>\<open>header\<close>, each at its offset in
  the struct and each read when the source first uses it.
\<close>

definition header_BiSize :: "byte list \<Rightarrow> int option" where
  "header_BiSize mem = le_u32 mem 0"

definition header_BiWidth :: "byte list \<Rightarrow> int option" where
  "header_BiWidth mem = le_i32 mem 4"

definition header_BiHeight :: "byte list \<Rightarrow> int option" where
  "header_BiHeight mem = le_i32 mem 8"

definition header_BiBitCount :: "byte list \<Rightarrow> int option" where
  "header_BiBitCount mem = le_u16 mem 14"

definition header_BiClrUsed :: "byte list \<Rightarrow> int option" where
  "header_BiClrUsed mem = le_u32 mem 32"

subsection \<open>The decoder\<close>

text \<open>
  Lines 115 to 124: the pixel data offset. \<^verbatim>\<open>header.BiClrUsed * 4\<close> is a \<^verbatim>\<open>uint32\<close>
  product and wraps at \<open>2 ^ 32\<close>; \<^verbatim>\<open>header.BiClrUsed\<close> is read only when the bit count is at most 8.
\<close>

definition pixelOffset :: "byte list \<Rightarrow> int \<Rightarrow> int option" where
  "pixelOffset mem bitCount =
     (case header_BiSize mem of
        None \<Rightarrow> None
      | Some biSize \<Rightarrow>
          if bitCount \<le> 8 then
            (case header_BiClrUsed mem of
               None \<Rightarrow> None
             | Some clrUsed \<Rightarrow>
                 let colorTableSize = (if clrUsed > 0 then (clrUsed * 4) mod 2 ^ 32
                                       else 2 ^ nat bitCount * 4)
                 in Some (uintptr (biSize + colorTableSize)))
          else Some biSize)"

text \<open>
  \<^verbatim>\<open>image.NewRGBA\<close> computes the buffer length \<open>4 * width * height\<close> with an overflow check
  and panics when it does not fit a 64-bit \<^verbatim>\<open>int\<close>; the \<^verbatim>\<open>make\<close> of the buffer panics when
  the length exceeds \<^verbatim>\<open>maxAlloc\<close> of the runtime, which is \<open>2 ^ 48\<close> bytes on a 64-bit
  platform. Below that bound the allocation depends on the memory the machine has left, of
  which the model knows nothing: it takes the buffer to be allocated. Where a property
  below says that the function returns, the image has at most 4/3 of \<^verbatim>\<open>maxClipboardSize\<close>
  bytes.
\<close>

definition maxAlloc :: int where
  "maxAlloc = 2 ^ 48"

definition NewRGBA_fits :: "int \<Rightarrow> int \<Rightarrow> bool" where
  "NewRGBA_fits width height \<longleftrightarrow>
     4 * width * height < 2 ^ 63 \<and> 4 * width * height \<le> maxAlloc"

definition rowSizeOf :: "int \<Rightarrow> int \<Rightarrow> int" where
  "rowSizeOf width bitCount = ((width * bitCount + 31) div 32) * 4"

definition srcRow :: "bool \<Rightarrow> int \<Rightarrow> int \<Rightarrow> int" where
  "srcRow bottomUp height y = (if bottomUp then height - 1 - y else y)"

text \<open>The body of the inner loops: the four bytes stored into \<^verbatim>\<open>img.Pix\<close> for one pixel.\<close>

definition pixel24 :: "byte list \<Rightarrow> int \<Rightarrow> byte list option" where
  "pixel24 mem pixelAddr =
     (case (peek mem pixelAddr, peek mem (pixelAddr + 1), peek mem (pixelAddr + 2)) of
        (Some b, Some g, Some r) \<Rightarrow> Some [r, g, b, 255]
      | _ \<Rightarrow> None)"

definition pixel32 :: "byte list \<Rightarrow> int \<Rightarrow> byte list option" where
  "pixel32 mem pixelAddr =
     (case (peek mem pixelAddr, peek mem (pixelAddr + 1), peek mem (pixelAddr + 2),
            peek mem (pixelAddr + 3)) of
        (Some b, Some g, Some r, Some a) \<Rightarrow> Some [r, g, b, if a = 0 then 255 else a]
      | _ \<Rightarrow> None)"

text \<open>
  The two nested loops. Row \<open>y\<close> and column \<open>x\<close> store at index \<open>(y * width + x) * 4\<close>, so the
  rows in order, each with its pixels in order, are the contents of \<^verbatim>\<open>img.Pix\<close>. The first
  read outside the block ends the conversion.
\<close>

definition convertRow :: "(byte list \<Rightarrow> int \<Rightarrow> byte list option) \<Rightarrow> int \<Rightarrow> byte list \<Rightarrow>
    int \<Rightarrow> int \<Rightarrow> byte list option" where
  "convertRow pixel bytesPerPixel mem rowPtr width =
     map_option concat
       (those (map (\<lambda>x. pixel mem (rowPtr + int x * bytesPerPixel)) [0..<nat width]))"

definition convertRows :: "(byte list \<Rightarrow> int \<Rightarrow> byte list option) \<Rightarrow> int \<Rightarrow> byte list \<Rightarrow>
    int \<Rightarrow> bool \<Rightarrow> int \<Rightarrow> int \<Rightarrow> int \<Rightarrow> byte list option" where
  "convertRows pixel bytesPerPixel mem pixelPtr bottomUp rowSize width height =
     map_option concat
       (those (map (\<lambda>y. convertRow pixel bytesPerPixel mem
                           (pixelPtr + uintptr (srcRow bottomUp height (int y) * rowSize)) width)
                   [0..<nat height]))"

text \<open>
  Lines 87 to 190: from \<^verbatim>\<open>GlobalSize\<close> to the end of the \<^verbatim>\<open>switch\<close>, with the image \<^verbatim>\<open>img\<close>
  as the result. Go's \<^verbatim>\<open>/\<close> on \<^verbatim>\<open>int\<close> truncates; its operands are positive here, where it
  agrees with \<open>div\<close>. The products of \<^verbatim>\<open>int\<close> values converted to \<^verbatim>\<open>uintptr\<close>, and the
  \<^verbatim>\<open>uintptr\<close> difference, are reduced modulo \<open>2 ^ 64\<close>.
\<close>

definition convertDIB :: "byte list \<Rightarrow> failure + RGBA" where
  "convertDIB mem =
     (let size = int (length mem) in
      if size = 0 then Inl (Err ErrDataSize)
      else if size > maxClipboardSize then Inl (Err ErrTooLarge)
      else
        (case (header_BiWidth mem, header_BiHeight mem, header_BiBitCount mem) of
           (Some width, Some biHeight, Some bitCount) \<Rightarrow>
             let bottomUp = (biHeight > 0);
                 height = (if biHeight < 0 then - biHeight else biHeight)
             in
             if width \<le> 0 \<or> height \<le> 0 then Inl (Err ErrInvalidDimensions)
             else
               (case pixelOffset mem bitCount of
                  None \<Rightarrow> Inl OutOfBoundsRead
                | Some pixelOff \<Rightarrow>
                    if \<not> NewRGBA_fits width height then Inl Panic
                    else
                      let rowSize = rowSizeOf width bitCount;
                          expectedSize = uintptr (rowSize * height);
                          dataSize = uintptr (size - pixelOff)
                      in
                      if dataSize < expectedSize then Inl (Err ErrPixelDataTooSmall)
                      else if bitCount = 24 then
                        (case convertRows pixel24 3 mem pixelOff bottomUp rowSize width height of
                           None \<Rightarrow> Inl OutOfBoundsRead
                         | Some pix \<Rightarrow>
                             Inr \<lparr>Pix = pix, Stride = 4 * width, Dx = width, Dy = height\<rparr>)
                      else if bitCount = 32 then
                        (case convertRows pixel32 4 mem pixelOff bottomUp rowSize width height of
                           None \<Rightarrow> Inl OutOfBoundsRead
                         | Some pix \<Rightarrow>
                             Inr \<lparr>Pix = pix, Stride = 4 * width, Dx = width, Dy = height\<rparr>)
                      else Inl (Err ErrUnsupportedBitDepth))
         | _ \<Rightarrow> Inl OutOfBoundsRead))"

text \<open>
  \<^verbatim>\<open>png.Encode\<close> on an \<^verbatim>\<open>image.RGBA\<close>. It refuses a width or height that is not positive
  or is \<open>2 ^ 32\<close> or more, and its writes into the \<^verbatim>\<open>bytes.Buffer\<close> return no error. It
  copies a pixel whose alpha is 255, writes zeros for a pixel whose alpha is 0, and divides
  the colour bytes of every other pixel by its alpha:
  \<^verbatim>\<open>uint8((uint32(c) * (0x101 * 0xffff) / (uint32(a) * 0x101)) >> 8)\<close>, a product below
  \<open>2 ^ 32\<close>. The pixel at \<open>(x, y)\<close> starts at \<^verbatim>\<open>Pix[y*Stride + x*4]\<close>, which lies in the
  buffer that \<^verbatim>\<open>image.NewRGBA\<close> made.
\<close>

definition unpremultiply :: "byte \<Rightarrow> byte \<Rightarrow> byte" where
  "unpremultiply c a =
     word_of_int ((uint c * (0x101 * 0xffff)) div (uint a * 0x101) div 2 ^ 8)"

definition pngPixel :: "byte \<Rightarrow> byte \<Rightarrow> byte \<Rightarrow> byte \<Rightarrow> byte list" where
  "pngPixel r g b a =
     (if a = 0 then [0, 0, 0, 0]
      else if a = 255 then [r, g, b, a]
      else [unpremultiply r a, unpremultiply g a, unpremultiply b a, a])"

definition png_Encode :: "RGBA \<Rightarrow> error + NRGBA" where
  "png_Encode m =
     (if Dx m \<le> 0 \<or> Dy m \<le> 0 \<or> Dx m \<ge> 2 ^ 32 \<or> Dy m \<ge> 2 ^ 32
      then Inl ErrInvalidImageSize
      else Inr \<lparr>Pix = concat (map (\<lambda>y. concat (map (\<lambda>x.
                          let i = int y * Stride m + int x * 4
                          in pngPixel (Pix m ! nat i) (Pix m ! nat (i + 1))
                                      (Pix m ! nat (i + 2)) (Pix m ! nat (i + 3)))
                        [0..<nat (Dx m)])) [0..<nat (Dy m)]),
                Stride = 4 * Dx m, Dx = Dx m, Dy = Dy m\<rparr>)"

text \<open>
  Lines 87 to 201: the conversion, then \<^verbatim>\<open>png.Encode\<close>, whose error is returned, then the
  result with the width and the height of the image.
\<close>

definition decodeBlock :: "byte list \<Rightarrow> failure + CaptureResult" where
  "decodeBlock mem =
     (case convertDIB mem of
        Inl f \<Rightarrow> Inl f
      | Inr img \<Rightarrow>
          (case png_Encode img of
             Inl e \<Rightarrow> Inl (Err e)
           | Inr png \<Rightarrow> Inr \<lparr>Width = Dx img, Height = Dy img, Data = png\<rparr>))"

text \<open>
  \<^verbatim>\<open>GetClipboardImage\<close>: the platform calls made, and what is returned. The deferred calls
  are appended in the reverse order of their registration.
\<close>

definition GetClipboardImage :: "Clipboard \<Rightarrow> call list \<times> (failure + CaptureResult)" where
  "GetClipboardImage cb =
     (if \<not> formatAvailable cb then
        ([LockOSThread, IsClipboardFormatAvailable, UnlockOSThread],
         Inl (Err ErrNoImageInClipboard))
      else if \<not> openOk cb then
        ([LockOSThread, IsClipboardFormatAvailable, OpenClipboard, UnlockOSThread],
         Inl (Err ErrOpenClipboard))
      else if hData cb = 0 then
        ([LockOSThread, IsClipboardFormatAvailable, OpenClipboard, GetClipboardData,
          CloseClipboard, UnlockOSThread],
         Inl (Err ErrNoImageInClipboard))
      else if \<not> lockOk cb then
        ([LockOSThread, IsClipboardFormatAvailable, OpenClipboard, GetClipboardData, GlobalLock,
          CloseClipboard, UnlockOSThread],
         Inl (Err ErrLockData))
      else
        ([LockOSThread, IsClipboardFormatAvailable, OpenClipboard, GetClipboardData, GlobalLock,
          GlobalSize, GlobalUnlock, CloseClipboard, UnlockOSThread],
         decodeBlock (block cb)))"


section \<open>Overlay compositor (internal/overlay/draw.go)\<close>

subsection \<open>Machine arithmetic\<close>

text \<open>
  Go's \<^verbatim>\<open>int\<close> is 64 bits wide and \<open>+\<close>, \<open>-\<close>, \<open>*\<close> wrap around. The wrap commutes with these
  three operations, so it is applied once to every computed value that is compared, used as
  an index or used as a loop bound. \<^verbatim>\<open>/\<close> truncates towards zero.
\<close>

definition int64 :: "int \<Rightarrow> int" where
  "int64 v = (v + 2 ^ 63) mod 2 ^ 64 - 2 ^ 63"

definition quo :: "int \<Rightarrow> int \<Rightarrow> int" where
  "quo a b = sgn a * sgn b * (\<bar>a\<bar> div \<bar>b\<bar>)"

definition minInt :: "int \<Rightarrow> int \<Rightarrow> int" where
  "minInt a b = (if a < b then a else b)"

definition maxInt :: "int \<Rightarrow> int \<Rightarrow> int" where
  "maxInt a b = (if a > b then a else b)"

text \<open>
  \<^verbatim>\<open>float64\<close>: a finite binary64 value is a rational number, and an arithmetic operation
  returns the exact result rounded to the nearest value with a 53-bit significand, ties to
  the even significand. The operands of \<^verbatim>\<open>fillOverlay\<close> lie between 0 and 255, far from the
  ends of the exponent range, which is therefore left unbounded.
\<close>

definition round_even :: "rat \<Rightarrow> int" where
  "round_even q = (let f = \<lfloor>q\<rfloor>; d = q - of_int f in
     if d < 1 / 2 then f else if d > 1 / 2 then f + 1 else if even f then f else f + 1)"

definition ilog2 :: "rat \<Rightarrow> int" where
  "ilog2 x = (let (p, q) = quotient_of x;
                  k = bitlen p - bitlen q
              in if 2 powi k \<le> x then k else k - 1)"

definition fl64 :: "rat \<Rightarrow> rat" where
  "fl64 x = (if x = 0 then 0
             else let e = ilog2 \<bar>x\<bar> - 52 in of_int (round_even (x / 2 powi e)) * 2 powi e)"

subsection \<open>Data model\<close>

type_synonym u32 = "32 word"

record Selection =
  StartX :: int
  StartY :: int
  EndX :: int
  EndY :: int
  IsDragging :: bool
  SpaceHeld :: bool

text \<open>
  \<^verbatim>\<open>DrawContext\<close> without its GDI handles. \<open>pixels\<close> is the memory of the DIB section that
  \<^verbatim>\<open>dc.pixels\<close> points to, one word per pixel. \<open>writes\<close> is not a field of the Go struct: it
  records, in order, every index of the buffer that has been assigned.
\<close>

record DrawContext =
  pixels :: "u32 list"
  width :: int
  height :: int
  writes :: "int list"

text \<open>A \<^verbatim>\<open>for\<close> loop over the values \<open>xs\<close> whose body can panic (\<open>None\<close>).\<close>

fun forEach :: "'a list \<Rightarrow> ('a \<Rightarrow> 's \<Rightarrow> 's option) \<Rightarrow> 's \<Rightarrow> 's option" where
  "forEach [] body s = Some s"
| "forEach (x # xs) body s = (case body x s of None \<Rightarrow> None | Some s' \<Rightarrow> forEach xs body s')"

text \<open>
  The two statements that open every primitive working on the buffer:
  \<^verbatim>\<open>pixelCount := dc.width * dc.height\<close>, a product that wraps, and
  \<^verbatim>\<open>pixels := unsafe.Slice((*uint32)(dc.pixels), pixelCount)\<close>, which panics on a negative
  length.
\<close>

definition pixelCount :: "DrawContext \<Rightarrow> int" where
  "pixelCount dc = int64 (width dc * height dc)"

definition slice :: "DrawContext \<Rightarrow> DrawContext option" where
  "slice dc = (if pixelCount dc < 0 then None else Some dc)"

text \<open>
  \<^verbatim>\<open>pixels[i] = c\<close>. The index is checked against the length of the view, which is
  \<^verbatim>\<open>pixelCount\<close>; an index that passes the check and lies outside the memory of the section
  is an access outside the program's memory, where the model stops as well.
\<close>

definition store :: "int \<Rightarrow> u32 \<Rightarrow> DrawContext \<Rightarrow> DrawContext option" where
  "store i c dc =
     (if 0 \<le> i \<and> i < pixelCount dc \<and> i < int (length (pixels dc))
      then Some (dc\<lparr>pixels := (pixels dc)[nat i := c], writes := writes dc @ [i]\<rparr>)
      else None)"

text \<open>\<^verbatim>\<open>pixels[i]\<close> as a value, with the same checks, and \<^verbatim>\<open>screenshot.Pix[i]\<close>.\<close>

definition load :: "int \<Rightarrow> DrawContext \<Rightarrow> u32 option" where
  "load i dc =
     (if 0 \<le> i \<and> i < pixelCount dc \<and> i < int (length (pixels dc))
      then Some (pixels dc ! nat i) else None)"

definition pixAt :: "RGBA \<Rightarrow> int \<Rightarrow> byte option" where
  "pixAt img i = (if 0 \<le> i \<and> i < int (length (Pix img)) then Some (Pix img ! nat i) else None)"

text \<open>\<^verbatim>\<open>(a << 24) | (r << 16) | (g << 8) | b\<close> on \<^verbatim>\<open>uint32\<close>.\<close>

definition argb :: "u32 \<Rightarrow> u32 \<Rightarrow> u32 \<Rightarrow> u32 \<Rightarrow> u32" where
  "argb a r g b = push_bit 24 a OR push_bit 16 r OR push_bit 8 g OR b"

definition blue :: u32 where
  "blue = argb 255 0x00 0x78 0xD7"

definition white :: u32 where
  "white = argb 255 255 255 255"

definition bgColor :: u32 where
  "bgColor = argb 220 0 0 0"

text \<open>
  The statement that ends most of the primitives:
  \<^verbatim>\<open>if px >= 0 && px < dc.width && py >= 0 && py < dc.height { pixels[py*dc.width+px] = c }\<close>
\<close>

definition plot :: "int \<Rightarrow> int \<Rightarrow> u32 \<Rightarrow> DrawContext \<Rightarrow> DrawContext option" where
  "plot px py c dc =
     (if px \<ge> 0 \<and> px < width dc \<and> py \<ge> 0 \<and> py < height dc
      then store (int64 (py * width dc + px)) c dc
      else Some dc)"

subsection \<open>Primitives\<close>

text \<open>
  Lines 129 to 138 and, the same statements again, lines 189 to 196: one pixel of the
  screenshot is read (three checked reads of \<^verbatim>\<open>screenshot.Pix\<close>) and stored opaque.
\<close>

definition blitPixel :: "RGBA \<Rightarrow> int \<Rightarrow> int \<Rightarrow> DrawContext \<Rightarrow> DrawContext option" where
  "blitPixel screenshot px py dc =
     (let srcIdx = int64 (py * Stride screenshot + px * 4);
          dstIdx = int64 (py * width dc + px)
      in case (pixAt screenshot srcIdx, pixAt screenshot (int64 (srcIdx + 1)),
               pixAt screenshot (int64 (srcIdx + 2))) of
           (Some r, Some g, Some b) \<Rightarrow> store dstIdx (argb 255 (ucast r) (ucast g) (ucast b)) dc
         | _ \<Rightarrow> None)"

text \<open>\<^verbatim>\<open>drawScreenshot\<close>; a nil screenshot is \<open>None\<close>.\<close>

definition drawScreenshot :: "RGBA option \<Rightarrow> DrawContext \<Rightarrow> DrawContext option" where
  "drawScreenshot screenshot dc =
     (case screenshot of
        None \<Rightarrow> Some dc
      | Some img \<Rightarrow> do {
          dc \<leftarrow> slice dc;
          forEach [0 .. minInt (Dy img) (height dc) - 1] (\<lambda>y.
            forEach [0 .. minInt (Dx img) (width dc) - 1] (\<lambda>x. blitPixel img x y)) dc
        })"

text \<open>
  \<^verbatim>\<open>fillOverlay\<close>. One channel: \<^verbatim>\<open>uint32(float64(c) * factor)\<close> with
  \<^verbatim>\<open>factor := float64(255-alpha) / 255.0\<close>. The conversions of the integers to \<^verbatim>\<open>float64\<close>
  are exact, and the conversion back truncates.
\<close>

definition darken :: "byte \<Rightarrow> u32 \<Rightarrow> u32" where
  "darken alpha c =
     (let factor = fl64 (of_int (uint (255 - alpha)) / 255)
      in word_of_int \<lfloor>fl64 (of_int (uint c) * factor)\<rfloor>)"

definition fillOverlay :: "byte \<Rightarrow> DrawContext \<Rightarrow> DrawContext option" where
  "fillOverlay alpha dc = do {
     dc \<leftarrow> slice dc;
     forEach [0 .. pixelCount dc - 1] (\<lambda>i dc.
       case load i dc of
         None \<Rightarrow> None
       | Some existing \<Rightarrow>
           let r = drop_bit 16 existing AND 0xFF;
               g = drop_bit 8 existing AND 0xFF;
               b = existing AND 0xFF
           in store i (argb 255 (darken alpha r) (darken alpha g) (darken alpha b)) dc) dc
   }"

text \<open>\<^verbatim>\<open>clearRegion\<close>; \<^verbatim>\<open>continue\<close> leaves the state as it is.\<close>

definition clearRegion :: "int \<Rightarrow> int \<Rightarrow> int \<Rightarrow> int \<Rightarrow> RGBA option \<Rightarrow> DrawContext \<Rightarrow>
    DrawContext option" where
  "clearRegion x y w h screenshot dc =
     (case screenshot of
        None \<Rightarrow> Some dc
      | Some img \<Rightarrow> do {
          dc \<leftarrow> slice dc;
          forEach [0 .. h - 1] (\<lambda>dy dc.
            let py = int64 (y + dy) in
            if py < 0 \<or> py \<ge> height dc \<or> py \<ge> Dy img then Some dc
            else
              forEach [0 .. w - 1] (\<lambda>dx dc.
                let px = int64 (x + dx) in
                if px < 0 \<or> px \<ge> width dc \<or> px \<ge> Dx img then Some dc
                else blitPixel img px py dc) dc) dc
        })"

text \<open>\<^verbatim>\<open>drawSelectionBorder\<close>: for each of the two thicknesses, the four edges in turn.\<close>

definition drawSelectionBorder :: "int \<Rightarrow> int \<Rightarrow> int \<Rightarrow> int \<Rightarrow> DrawContext \<Rightarrow>
    DrawContext option" where
  "drawSelectionBorder x y w h dc = do {
     dc \<leftarrow> slice dc;
     forEach [0 .. 1] (\<lambda>t dc. do {
       dc \<leftarrow> forEach [x .. int64 (x + w) - 1] (\<lambda>px. plot px (int64 (y + t)) blue) dc;
       dc \<leftarrow> forEach [x .. int64 (x + w) - 1] (\<lambda>px. plot px (int64 (y + h - 1 - t)) blue) dc;
       dc \<leftarrow> forEach [y .. int64 (y + h) - 1] (\<lambda>py. plot (int64 (x + t)) py blue) dc;
       forEach [y .. int64 (y + h) - 1] (\<lambda>py. plot (int64 (x + w - 1 - t)) py blue) dc
     }) dc
   }"

text \<open>A filled rectangle of guarded stores, as the handles and both pills draw it.\<close>

definition fillRect :: "int \<Rightarrow> int \<Rightarrow> int \<Rightarrow> int \<Rightarrow> u32 \<Rightarrow> DrawContext \<Rightarrow>
    DrawContext option" where
  "fillRect x y w h c dc =
     forEach [0 .. h - 1] (\<lambda>dy.
       forEach [0 .. w - 1] (\<lambda>dx. plot (int64 (x + dx)) (int64 (y + dy)) c)) dc"

definition handleSize :: int where
  "handleSize = 6"

definition drawCornerHandles :: "int \<Rightarrow> int \<Rightarrow> int \<Rightarrow> int \<Rightarrow> DrawContext \<Rightarrow>
    DrawContext option" where
  "drawCornerHandles x y w h dc = do {
     dc \<leftarrow> slice dc;
     (let corners =
        [(int64 (x - quo handleSize 2), int64 (y - quo handleSize 2)),
         (int64 (x + w - quo handleSize 2), int64 (y - quo handleSize 2)),
         (int64 (x - quo handleSize 2), int64 (y + h - quo handleSize 2)),
         (int64 (x + w - quo handleSize 2), int64 (y + h - quo handleSize 2))]
      in forEach corners (\<lambda>(cx, cy). fillRect cx cy handleSize handleSize blue) dc)
   }"

text \<open>The two glyph tables, as the source gives them.\<close>

definition fontText :: "(char \<times> byte list) list" where
  "fontText =
    [(CHR ''0'', [0x3E, 0x45, 0x49, 0x51, 0x3E]),
     (CHR ''1'', [0x00, 0x21, 0x7F, 0x01, 0x00]),
     (CHR ''2'', [0x27, 0x49, 0x49, 0x49, 0x31]),
     (CHR ''3'', [0x22, 0x49, 0x49, 0x49, 0x36]),
     (CHR ''4'', [0x0C, 0x14, 0x24, 0x7F, 0x04]),
     (CHR ''5'', [0x72, 0x51, 0x51, 0x51, 0x4E]),
     (CHR ''6'', [0x3E, 0x49, 0x49, 0x49, 0x26]),
     (CHR ''7'', [0x40, 0x40, 0x47, 0x48, 0x70]),
     (CHR ''8'', [0x36, 0x49, 0x49, 0x49, 0x36]),
     (CHR ''9'', [0x32, 0x49, 0x49, 0x49, 0x3E]),
     (CHR ''x'', [0x00, 0x14, 0x08, 0x14, 0x00]),
     (CHR '' '', [0x00, 0x00, 0x00, 0x00, 0x00])]"

definition fontInstructionText :: "(char \<times> byte list) list" where
  "fontInstructionText =
    [(CHR ''0'', [0x3E, 0x45, 0x49, 0x51, 0x3E]),
     (CHR ''1'', [0x00, 0x21, 0x7F, 0x01, 0x00]),
     (CHR ''2'', [0x27, 0x49, 0x49, 0x49, 0x31]),
     (CHR ''3'', [0x22, 0x49, 0x49, 0x49, 0x36]),
     (CHR ''4'', [0x0C, 0x14, 0x24, 0x7F, 0x04]),
     (CHR ''5'', [0x72, 0x51, 0x51, 0x51, 0x4E]),
     (CHR ''6'', [0x3E, 0x49, 0x49, 0x49, 0x26]),
     (CHR ''7'', [0x40, 0x40, 0x47, 0x48, 0x70]),
     (CHR ''8'', [0x36, 0x49, 0x49, 0x49, 0x36]),
     (CHR ''9'', [0x32, 0x49, 0x49, 0x49, 0x3E]),
     (CHR ''A'', [0x3F, 0x48, 0x48, 0x48, 0x3F]),
     (CHR ''B'', [0x7F, 0x49, 0x49, 0x49, 0x36]),
     (CHR ''C'', [0x3E, 0x41, 0x41, 0x41, 0x22]),
     (CHR ''D'', [0x7F, 0x41, 0x41, 0x41, 0x3E]),
     (CHR ''E'', [0x7F, 0x49, 0x49, 0x49, 0x41]),
     (CHR ''S'', [0x32, 0x49, 0x49, 0x49, 0x26]),
     (CHR ''a'', [0x02, 0x15, 0x15, 0x15, 0x0F]),
     (CHR ''c'', [0x0E, 0x11, 0x11, 0x11, 0x0A]),
     (CHR ''d'', [0x0E, 0x11, 0x11, 0x11, 0x7F]),
     (CHR ''e'', [0x0E, 0x15, 0x15, 0x15, 0x0C]),
     (CHR ''g'', [0x08, 0x15, 0x15, 0x15, 0x1E]),
     (CHR ''h'', [0x7F, 0x08, 0x08, 0x08, 0x07]),
     (CHR ''i'', [0x00, 0x00, 0x2F, 0x00, 0x00]),
     (CHR ''l'', [0x00, 0x00, 0x7F, 0x00, 0x00]),
     (CHR ''m'', [0x1F, 0x10, 0x0E, 0x10, 0x0F]),
     (CHR ''n'', [0x1F, 0x08, 0x10, 0x10, 0x0F]),
     (CHR ''o'', [0x0E, 0x11, 0x11, 0x11, 0x0E]),
     (CHR ''p'', [0x1F, 0x14, 0x14, 0x14, 0x08]),
     (CHR ''r'', [0x1F, 0x08, 0x10, 0x10, 0x08]),
     (CHR ''s'', [0x09, 0x15, 0x15, 0x15, 0x12]),
     (CHR ''t'', [0x10, 0x7E, 0x11, 0x01, 0x02]),
     (CHR ''u'', [0x1E, 0x01, 0x01, 0x01, 0x1E]),
     (CHR ''v'', [0x18, 0x06, 0x01, 0x06, 0x18]),
     (CHR ''x'', [0x11, 0x0A, 0x04, 0x0A, 0x11]),
     (CHR '' '', [0x00, 0x00, 0x00, 0x00, 0x00]),
     (CHR ''.'', [0x00, 0x01, 0x00, 0x00, 0x00]),
     (CHR ''+'', [0x04, 0x04, 0x1F, 0x04, 0x04]),
     (CHR ''H'', [0x7F, 0x08, 0x08, 0x08, 0x7F]),
     (CHR ''P'', [0x7F, 0x48, 0x48, 0x48, 0x30])]"

text \<open>
  \<^verbatim>\<open>drawText\<close> and \<^verbatim>\<open>drawInstructionText\<close> have the same body and differ in the table.
  A character without a glyph advances the cursor; a glyph is drawn column by column, one
  bit per row.
\<close>

fun drawGlyphs :: "(char \<times> byte list) list \<Rightarrow> int \<Rightarrow> int \<Rightarrow> string \<Rightarrow> DrawContext \<Rightarrow>
    DrawContext option" where
  "drawGlyphs font curX y [] dc = Some dc"
| "drawGlyphs font curX y (ch # text) dc =
     (case map_of font ch of
        None \<Rightarrow> drawGlyphs font (int64 (curX + 6)) y text dc
      | Some glyph \<Rightarrow> do {
          dc \<leftarrow> forEach (enumerate 0 glyph) (\<lambda>(col, bits).
                  forEach [0 .. 6] (\<lambda>row dc.
                    if bits AND push_bit (nat (6 - row)) 1 \<noteq> 0
                    then plot (int64 (curX + int col)) (int64 (y + row)) white dc
                    else Some dc)) dc;
          drawGlyphs font (int64 (curX + 6)) y text dc
        })"

definition drawText :: "int \<Rightarrow> int \<Rightarrow> string \<Rightarrow> DrawContext \<Rightarrow> DrawContext option" where
  "drawText x y text dc = drawGlyphs fontText x y text dc"

definition drawInstructionText :: "int \<Rightarrow> int \<Rightarrow> string \<Rightarrow> DrawContext \<Rightarrow>
    DrawContext option" where
  "drawInstructionText x y text dc = drawGlyphs fontInstructionText x y text dc"

text \<open>\<^verbatim>\<open>fmt.Sprintf("%d x %d", w, h)\<close>.\<close>

fun digitsOf :: "nat \<Rightarrow> string" where
  "digitsOf n = (if n < 10 then [char_of (48 + n)]
                 else digitsOf (n div 10) @ [char_of (48 + n mod 10)])"

definition itoa :: "int \<Rightarrow> string" where
  "itoa v = (if v < 0 then CHR ''-'' # digitsOf (nat (- v)) else digitsOf (nat v))"

definition sizeText :: "int \<Rightarrow> int \<Rightarrow> string" where
  "sizeText w h = itoa w @ '' x '' @ itoa h"

definition drawSizeIndicator :: "int \<Rightarrow> int \<Rightarrow> int \<Rightarrow> int \<Rightarrow> DrawContext \<Rightarrow>
    DrawContext option" where
  "drawSizeIndicator x y w h dc = do {
     dc \<leftarrow> slice dc;
     (let text = sizeText w h;
          textWidth = int (length text) * 7;
          pillWidth = textWidth + 16;
          pillHeight = 20;
          pillY = (if int64 (y + pillHeight) \<ge> height dc then int64 (y - pillHeight - 8) else y);
          pillX = (if int64 (x + pillWidth) \<ge> width dc then int64 (width dc - pillWidth - 4)
                   else x);
          pillX = (if pillX < 0 then 4 else pillX)
      in do {
        dc \<leftarrow> fillRect pillX pillY pillWidth pillHeight blue dc;
        drawText (int64 (pillX + 8)) (int64 (pillY + 4)) text dc
      })
   }"

definition instructionText :: "Selection \<Rightarrow> string" where
  "instructionText sel =
     (if IsDragging sel \<and> SpaceHeld sel then ''Hold Space + Drag to reposition''
      else ''Drag to select. Space to move. ESC cancel'')"

definition drawInstructions :: "Selection \<Rightarrow> DrawContext \<Rightarrow> DrawContext option" where
  "drawInstructions sel dc = do {
     dc \<leftarrow> slice dc;
     (let text = instructionText sel;
          textWidth = int (length text) * 7;
          pillWidth = textWidth + 20;
          pillHeight = 24;
          pillX = quo (int64 (width dc - pillWidth)) 2;
          pillY = 16
      in do {
        dc \<leftarrow> fillRect pillX pillY pillWidth pillHeight bgColor dc;
        drawInstructionText (int64 (pillX + 10)) (int64 (pillY + 6)) text dc
      })
   }"

subsection \<open>Frame assembly\<close>

text \<open>
  \<^verbatim>\<open>DrawOverlay\<close>. \<open>scale\<close> stands for \<^verbatim>\<open>int(float64(v) * scaleRatio)\<close>: whatever integer the
  conversion yields, it only enters the text of the size indicator.
\<close>

definition DrawOverlay :: "(int \<Rightarrow> int) \<Rightarrow> RGBA option \<Rightarrow> Selection \<Rightarrow> DrawContext \<Rightarrow>
    DrawContext option" where
  "DrawOverlay scale screenshot sel dc = do {
     dc \<leftarrow> drawScreenshot screenshot dc;
     dc \<leftarrow> fillOverlay 128 dc;
     dc \<leftarrow> (if IsDragging sel then
             (let x1 = minInt (StartX sel) (EndX sel); y1 = minInt (StartY sel) (EndY sel);
                  x2 = maxInt (StartX sel) (EndX sel); y2 = maxInt (StartY sel) (EndY sel);
                  w = int64 (x2 - x1); h = int64 (y2 - y1)
              in do {
                dc \<leftarrow> clearRegion x1 y1 w h screenshot dc;
                dc \<leftarrow> drawSelectionBorder x1 y1 w h dc;
                dc \<leftarrow> drawCornerHandles x1 y1 w h dc;
                drawSizeIndicator x1 (int64 (y2 + 8)) (scale w) (scale h) dc
              })
           else Some dc);
     drawInstructions sel dc
   }"

text \<open>
  What \<^verbatim>\<open>NewDrawContext\<close> establishes and every primitive keeps: the buffer holds
  \<open>width * height\<close> pixels, a count that fits an \<^verbatim>\<open>int\<close>, and every index assigned so far
  is an index of the buffer. What the image package establishes: every pixel of the
  rectangle of an image lies in its \<^verbatim>\<open>Pix\<close>, whose length fits an \<^verbatim>\<open>int\<close>.
\<close>

definition ctx_ok :: "DrawContext \<Rightarrow> bool" where
  "ctx_ok dc \<longleftrightarrow> 0 \<le> width dc \<and> 0 \<le> height dc \<and> width dc * height dc < 2 ^ 63 \<and>
     int (length (pixels dc)) = width dc * height dc \<and>
     (\<forall>i \<in> set (writes dc). 0 \<le> i \<and> i < width dc * height dc)"

definition rgba_ok :: "RGBA \<Rightarrow> bool" where
  "rgba_ok img \<longleftrightarrow> int (length (Pix img)) < 2 ^ 63 \<and>
     (Dx img \<le> 0 \<or> Dy img \<le> 0 \<or>
      (0 \<le> Stride img \<and> (Dy img - 1) * Stride img + 4 * Dx img \<le> int (length (Pix img))))"

section \<open>Auxiliary definitions\<close>

text \<open>
  The four bytes \<open>R, G, B, A\<close> that the 24-bit and the 32-bit loop store for the source pixel
  at offset \<open>a\<close> of a block, when the reads are inside the block.
\<close>

definition out24 :: "byte list \<Rightarrow> int \<Rightarrow> byte list" where
  "out24 mem a = [mem ! nat (a + 2), mem ! nat (a + 1), mem ! nat a, 255]"

definition out32 :: "byte list \<Rightarrow> int \<Rightarrow> byte list" where
  "out32 mem a = [mem ! nat (a + 2), mem ! nat (a + 1), mem ! nat a,
                  if mem ! nat (a + 3) = 0 then 255 else mem ! nat (a + 3)]"

definition outPix :: "int \<Rightarrow> byte list \<Rightarrow> int \<Rightarrow> byte list" where
  "outPix bc mem a = (if bc = 24 then out24 mem a else out32 mem a)"

text \<open>What \<^verbatim>\<open>png.Encode\<close> writes for a pixel given as its four bytes.\<close>

definition encoded :: "byte list \<Rightarrow> byte list" where
  "encoded p = pngPixel (p ! 0) (p ! 1) (p ! 2) (p ! 3)"


text \<open>
  The channels of a packed pixel, as \<^verbatim>\<open>fillOverlay\<close> takes them apart.
\<close>

definition red :: "u32 \<Rightarrow> byte" where "red p = ucast (drop_bit 16 p)"

definition green :: "u32 \<Rightarrow> byte" where "green p = ucast (drop_bit 8 p)"

definition blue_of :: "u32 \<Rightarrow> byte" where "blue_of p = ucast p"

definition alpha_of :: "u32 \<Rightarrow> byte" where "alpha_of p = ucast (drop_bit 24 p)"

text \<open>
  The pixel that \<^verbatim>\<open>drawScreenshot\<close> and \<^verbatim>\<open>clearRegion\<close> store for position \<open>(px, py)\<close> of the
  screenshot, and the pixel that \<^verbatim>\<open>fillOverlay\<close> stores over an existing one.
\<close>

definition background :: "RGBA \<Rightarrow> int \<Rightarrow> int \<Rightarrow> u32" where
  "background img px py =
     argb 255 (ucast (Pix img ! nat (py * Stride img + px * 4)))
              (ucast (Pix img ! nat (py * Stride img + px * 4 + 1)))
              (ucast (Pix img ! nat (py * Stride img + px * 4 + 2)))"

definition shade :: "byte \<Rightarrow> u32 \<Rightarrow> u32" where
  "shade alpha existing =
     argb 255 (darken alpha (drop_bit 16 existing AND 0xFF))
              (darken alpha (drop_bit 8 existing AND 0xFF))
              (darken alpha (existing AND 0xFF))"

text \<open>
  One channel of \<^verbatim>\<open>fillOverlay\<close> as a byte, and the relation between a channel \<open>c\<close> and what
  a scale by \<open>f / 255\<close> makes of it: the truncated quotient, or one less where \<open>c * f\<close> is a
  multiple of 255 and the rounding of \<^verbatim>\<open>float64\<close> leaves the product just below it.
\<close>

definition darken8 :: "byte \<Rightarrow> byte \<Rightarrow> byte" where
  "darken8 alpha c = ucast (darken alpha (ucast c))"

definition scaled :: "int \<Rightarrow> byte \<Rightarrow> byte \<Rightarrow> bool" where
  "scaled f c c' \<longleftrightarrow>
     (let q = (uint c * f) div 255
      in uint c' = q \<or> ((uint c * f) mod 255 = 0 \<and> uint c' = q - 1))"

text \<open>
  The body of the inner and of the outer loop of \<^verbatim>\<open>clearRegion\<close>, named for the proofs.
\<close>

definition clearPixel :: "RGBA \<Rightarrow> int \<Rightarrow> int \<Rightarrow> int \<Rightarrow> DrawContext \<Rightarrow> DrawContext option" where
  "clearPixel img x py dx dc =
     (let px = int64 (x + dx) in
      if px < 0 \<or> px \<ge> width dc \<or> px \<ge> Dx img then Some dc
      else blitPixel img px py dc)"

definition clearRow :: "RGBA \<Rightarrow> int \<Rightarrow> int \<Rightarrow> int \<Rightarrow> int \<Rightarrow> DrawContext \<Rightarrow> DrawContext option" where
  "clearRow img x y w dy dc =
     (let py = int64 (y + dy) in
      if py < 0 \<or> py \<ge> height dc \<or> py \<ge> Dy img then Some dc
      else forEach [0 .. w - 1] (clearPixel img x py) dc)"

text \<open>
  The invariant of a drawing session for a buffer of \<open>W\<close> by \<open>H\<close> pixels, and what it means
  for a primitive to keep an invariant (it returns, and the invariant holds again) and to
  establish a property.
\<close>

definition frame_inv :: "int \<Rightarrow> int \<Rightarrow> DrawContext \<Rightarrow> bool" where
  "frame_inv W H dc \<longleftrightarrow> width dc = W \<and> height dc = H \<and> W * H < 2 ^ 63 \<and>
     int (length (pixels dc)) = W * H \<and> (\<forall>i \<in> set (writes dc). 0 \<le> i \<and> i < W * H)"

definition maintains :: "(DrawContext \<Rightarrow> bool) \<Rightarrow> (DrawContext \<Rightarrow> DrawContext option) \<Rightarrow> bool" where
  "maintains I f \<longleftrightarrow> (\<forall>dc. I dc \<longrightarrow> (\<exists>dc'. f dc = Some dc' \<and> I dc'))"

abbreviation safe :: "int \<Rightarrow> int \<Rightarrow> (DrawContext \<Rightarrow> DrawContext option) \<Rightarrow> bool" where
  "safe W H \<equiv> maintains (frame_inv W H)"

definition establishes :: "(DrawContext \<Rightarrow> bool) \<Rightarrow> (DrawContext \<Rightarrow> bool) \<Rightarrow>
    (DrawContext \<Rightarrow> DrawContext option) \<Rightarrow> bool" where
  "establishes I P f \<longleftrightarrow> (\<forall>dc. I dc \<longrightarrow> (\<exists>dc'. f dc = Some dc' \<and> I dc' \<and> P dc'))"

text \<open>
  A call returned, left the dimensions and the size of the buffer as they were, and every
  index assigned so far is the index of a position \<open>(px, py)\<close> inside the buffer.
\<close>

definition stays_inside :: "DrawContext \<Rightarrow> DrawContext option \<Rightarrow> bool" where
  "stays_inside dc r \<longleftrightarrow>
     (\<exists>dc'. r = Some dc' \<and> width dc' = width dc \<and> height dc' = height dc \<and>
        length (pixels dc') = length (pixels dc) \<and>
        (\<forall>i \<in> set (writes dc').
           \<exists>px py. 0 \<le> px \<and> px < width dc \<and> 0 \<le> py \<and> py < height dc \<and>
                   i = py * width dc + px))"

section \<open>Concrete inputs\<close>

text \<open>A header with one plane and the unused fields zero, and a clipboard on which every
  platform call succeeds.\<close>

definition mkHeader :: "int \<Rightarrow> int \<Rightarrow> int \<Rightarrow> int \<Rightarrow> int \<Rightarrow> BITMAPINFOHEADER" where
  "mkHeader biSize w h bitCount compression =
     \<lparr>BiSize = biSize, BiWidth = w, BiHeight = h, BiPlanes = 1, BiBitCount = bitCount,
      BiCompression = compression, BiSizeImage = 0, BiXPelsPerMeter = 0, BiYPelsPerMeter = 0,
      BiClrUsed = 0, BiClrImportant = 0\<rparr>"

definition clip :: "byte list \<Rightarrow> Clipboard" where
  "clip mem = \<lparr>formatAvailable = True, openOk = True, hData = 1, lockOk = True, block = mem\<rparr>"

text \<open>A block of 40 bytes whose header declares a size of 100 bytes, one 32-bit pixel.\<close>

definition cb_header_beyond_block :: Clipboard where
  "cb_header_beyond_block = clip (headerBytes (mkHeader 100 1 1 32 0))"

text \<open>A 16-bit header with no pixel data behind it.\<close>

definition cb_depth16_no_pixels :: Clipboard where
  "cb_depth16_no_pixels = clip (headerBytes (mkHeader 40 1 1 16 0))"

text \<open>One top-down 32-bit pixel \<open>(B, G, R, A) = (1, 2, 3, 128)\<close>.\<close>

definition cb_alpha128 :: Clipboard where
  "cb_alpha128 = clip (headerBytes (mkHeader 40 1 (- 1) 32 0) @ [1, 2, 3, 128])"

text \<open>The format is absent; the format is present but the data handle is null.\<close>

definition cb_no_format :: Clipboard where
  "cb_no_format = \<lparr>formatAvailable = False, openOk = True, hData = 1, lockOk = True, block = []\<rparr>"

definition cb_null_handle :: Clipboard where
  "cb_null_handle = \<lparr>formatAvailable = True, openOk = True, hData = 0, lockOk = True, block = []\<rparr>"

text \<open>A 16-bit header followed by the four bytes its layout asks for.\<close>

definition cb_depth16_one_row :: Clipboard where
  "cb_depth16_one_row = clip (headerBytes (mkHeader 40 1 1 16 0) @ [0, 0, 0, 0])"


text \<open>
  The same 2 by 2 image at 24 bits, rows of 6 bytes padded to 8: stored top-down, and stored
  bottom-up.
\<close>

definition cb_top_down :: Clipboard where
  "cb_top_down = clip (headerBytes (mkHeader 40 2 (- 2) 24 0) @
     [1, 2, 3, 4, 5, 6, 0, 0, 7, 8, 9, 10, 11, 12, 0, 0])"

definition cb_bottom_up :: Clipboard where
  "cb_bottom_up = clip (headerBytes (mkHeader 40 2 2 24 0) @
     [7, 8, 9, 10, 11, 12, 0, 0, 1, 2, 3, 4, 5, 6, 0, 0])"

text \<open>
  One 32-bit pixel behind a plain header, and the same block whose header declares run-length
  compression, three planes and an image size of four bytes.
\<close>

definition cb_plain :: Clipboard where
  "cb_plain = clip (headerBytes (mkHeader 40 1 1 32 0) @ [1, 2, 3, 4])"

definition block_compressed :: "byte list" where
  "block_compressed =
     headerBytes ((mkHeader 40 1 1 32 1)\<lparr>BiPlanes := 3, BiSizeImage := 4\<rparr>) @ [1, 2, 3, 4]"

text \<open>One white pixel; one grey pixel with all channels 153.\<close>

definition dc_white :: DrawContext where
  "dc_white = \<lparr>pixels = [0xFFFFFFFF], width = 1, height = 1, writes = []\<rparr>"

definition dc_gray :: DrawContext where
  "dc_gray = \<lparr>pixels = [0xFF999999], width = 1, height = 1, writes = []\<rparr>"

text \<open>A buffer of 4 by 3 pixels, a screenshot of the same size, and a drag from \<open>(3, 2)\<close> to
  \<open>(1, 0)\<close>.\<close>

definition dc0 :: DrawContext where
  "dc0 = \<lparr>pixels = replicate 12 0, width = 4, height = 3, writes = []\<rparr>"

definition img0 :: RGBA where
  "img0 = \<lparr>Pix = map of_nat [0 ..< 48], Stride = 16, Dx = 4, Dy = 3\<rparr>"

definition sel0 :: Selection where
  "sel0 = \<lparr>StartX = 3, StartY = 2, EndX = 1, EndY = 0, IsDragging = True, SpaceHeld = False\<rparr>"

section \<open>Properties of the decoder\<close>

text \<open>
  C9. \<^verbatim>\<open>GetClipboardImage\<close> returns the same value \<^verbatim>\<open>ErrNoImageInClipboard\<close> when the DIB
  format is not available, in which case it returns before \<^verbatim>\<open>OpenClipboard\<close> is called, and
  when the clipboard was opened and \<^verbatim>\<open>GetClipboardData\<close> gave the null handle: the error
  does not tell the two situations apart.
\<close>

theorem C9_not_found_in_two_situations:
  assumes "\<not> formatAvailable cb1"
    and "formatAvailable cb2" and "openOk cb2" and "hData cb2 = 0"
  shows "snd (GetClipboardImage cb1) = Inl (Err ErrNoImageInClipboard) \<and>
         snd (GetClipboardImage cb2) = Inl (Err ErrNoImageInClipboard) \<and>
         snd (GetClipboardImage cb1) = snd (GetClipboardImage cb2) \<and>
         OpenClipboard \<notin> set (fst (GetClipboardImage cb1)) \<and>
         OpenClipboard \<in> set (fst (GetClipboardImage cb2))"
  using assms by (simp add: GetClipboardImage_def)

theorem C9_witness:
  "\<not> formatAvailable cb_no_format \<and>
   formatAvailable cb_null_handle \<and> openOk cb_null_handle \<and> hData cb_null_handle = 0 \<and>
   snd (GetClipboardImage cb_no_format) = Inl (Err ErrNoImageInClipboard) \<and>
   snd (GetClipboardImage cb_null_handle) = snd (GetClipboardImage cb_no_format) \<and>
   OpenClipboard \<notin> set (fst (GetClipboardImage cb_no_format)) \<and>
   OpenClipboard \<in> set (fst (GetClipboardImage cb_null_handle))"
  using C9_not_found_in_two_situations [of cb_no_format cb_null_handle]
  by (simp add: cb_no_format_def cb_null_handle_def)

text \<open>
  C1, at a block whose header declares more bytes than the block has. The block is 40 bytes
  long and its header gives \<^verbatim>\<open>BiSize = 100\<close>, width 1, height 1, 32 bits. The difference
  \<^verbatim>\<open>size - pixelOffset\<close> wraps to \<open>2 ^ 64 - 60\<close>, the comparison with the expected 4 bytes
  passes, and the first pixel is read at offset 100, outside the block.
\<close>

theorem C1_wrapped_difference_reads_outside:
  "int (length (block cb_header_beyond_block)) = 40 \<and>
   header_BiSize (block cb_header_beyond_block) = Some 100 \<and>
   uintptr (40 - 100) = 2 ^ 64 - 60 \<and>
   peek (block cb_header_beyond_block) 100 = None \<and>
   snd (GetClipboardImage cb_header_beyond_block) = Inl OutOfBoundsRead"
  by code_simp

text \<open>
  C2 as stated fails: a 16-bit header with no pixel data is rejected by the layout check,
  which the source makes before the \<^verbatim>\<open>switch\<close> on the bit count.
\<close>

theorem C2_counterexample:
  "header_BiBitCount (block cb_depth16_no_pixels) = Some 16 \<and>
   snd (GetClipboardImage cb_depth16_no_pixels) = Inl (Err ErrPixelDataTooSmall) \<and>
   snd (GetClipboardImage cb_depth16_no_pixels) \<noteq> Inl (Err ErrUnsupportedBitDepth)"
  by code_simp

text \<open>
  C3 as stated fails: a well-formed 32-bit buffer whose pixel has alpha 128 decodes, and the
  decoded alpha is 128.
\<close>

theorem C3_counterexample:
  "header_BiBitCount (block cb_alpha128) = Some 32 \<and>
   header_BiWidth (block cb_alpha128) = Some 1 \<and>
   header_BiHeight (block cb_alpha128) = Some (- 1) \<and>
   header_BiSize (block cb_alpha128) = Some 40 \<and>
   int (length (block cb_alpha128)) = 40 + rowSizeOf 1 32 * 1 \<and>
   snd (GetClipboardImage cb_alpha128) =
     Inr \<lparr>Width = 1, Height = 1, Data = \<lparr>Pix = [5, 3, 1, 128], Stride = 4, Dx = 1, Dy = 1\<rparr>\<rparr>"
  by code_simp

subsection \<open>Reads inside the block and the layout of the decoded image\<close>

lemma those_map_Some:
  "(\<And>x. x \<in> set xs \<Longrightarrow> f x = Some (g x)) \<Longrightarrow> those (map f xs) = Some (map g xs)"
  by (induction xs) auto


lemma uintptr_id: "0 \<le> v \<Longrightarrow> v < 2 ^ 64 \<Longrightarrow> uintptr v = v"
  by (simp add: uintptr_def)

lemma peek_inside:
  "0 \<le> a \<Longrightarrow> a < int (length mem) \<Longrightarrow> int (length mem) < 2 ^ 64 \<Longrightarrow>
   peek mem a = Some (mem ! nat a)"
  by (simp add: peek_def uintptr_id Let_def)

lemma peek_Some_iff:
  "0 \<le> a \<Longrightarrow> a < 2 ^ 64 \<Longrightarrow> peek mem a = (if a < int (length mem) then Some (mem ! nat a) else None)"
  by (simp add: peek_def uintptr_id Let_def)

lemma pixel24_inside:
  "0 \<le> a \<Longrightarrow> a + 2 < int (length mem) \<Longrightarrow> int (length mem) < 2 ^ 64 \<Longrightarrow>
   pixel24 mem a = Some (out24 mem a)"
  by (simp add: pixel24_def out24_def peek_inside)

lemma pixel32_inside:
  "0 \<le> a \<Longrightarrow> a + 3 < int (length mem) \<Longrightarrow> int (length mem) < 2 ^ 64 \<Longrightarrow>
   pixel32 mem a = Some (out32 mem a)"
  by (simp add: pixel32_def out32_def peek_inside)

lemma convertRow_Some:
  assumes "\<And>x. x < nat W \<Longrightarrow> pixel mem (rowPtr + int x * k) = Some (g x)"
  shows "convertRow pixel k mem rowPtr W = Some (concat (map g [0..<nat W]))"
  unfolding convertRow_def using those_map_Some [of "[0..<nat W]" "\<lambda>x. pixel mem (rowPtr + int x * k)" g] assms
  by simp

lemma convertRows_Some:
  assumes "\<And>y x. y < nat H \<Longrightarrow> x < nat W \<Longrightarrow>
     pixel mem (pixelPtr + uintptr (srcRow bu H (int y) * rs) + int x * k) = Some (g y x)"
  shows "convertRows pixel k mem pixelPtr bu rs W H =
     Some (concat (map (\<lambda>y. concat (map (g y) [0..<nat W])) [0..<nat H]))"
proof -
  have "\<And>y. y \<in> set [0..<nat H] \<Longrightarrow>
      convertRow pixel k mem (pixelPtr + uintptr (srcRow bu H (int y) * rs)) W =
      Some (concat (map (g y) [0..<nat W]))"
    by (rule convertRow_Some) (use assms in simp)
  from those_map_Some [of "[0..<nat H]" _ "\<lambda>y. concat (map (g y) [0..<nat W])", OF this]
  show ?thesis unfolding convertRows_def by simp
qed

lemma le_u16_range: "le_u16 mem a = Some v \<Longrightarrow> 0 \<le> v \<and> v < 65536"
  unfolding le_u16_def
  apply (auto split: option.splits)
  subgoal for b0 b1 using uint_lt2p [of b0] uint_lt2p [of b1] by simp
  done

lemma le_u32_range: "le_u32 mem a = Some v \<Longrightarrow> 0 \<le> v \<and> v < 2 ^ 32"
  unfolding le_u32_def
  apply (auto split: option.splits)
  subgoal for b0 b1 b2 b3
    using uint_lt2p [of b0] uint_lt2p [of b1] uint_lt2p [of b2] uint_lt2p [of b3] by simp
  done

lemma le_i32_range: "le_i32 mem a = Some v \<Longrightarrow> - (2 ^ 31) \<le> v \<and> v < 2 ^ 31"
  unfolding le_i32_def using le_u32_range [of mem a]
  by (auto split: option.splits if_splits)

lemma rowSizeOf_24: "0 \<le> W \<Longrightarrow> 3 * W \<le> rowSizeOf W 24 \<and> rowSizeOf W 24 \<le> 4 * W"
proof -
  assume W: "0 \<le> W"
  define q where "q = (W * 24 + 31) div 32"
  define r where "r = (W * 24 + 31) mod 32"
  have e: "W * 24 + 31 = 32 * q + r" unfolding q_def r_def by simp
  have r: "0 \<le> r" "r < 32" unfolding r_def by simp_all
  have lo: "3 * W \<le> q * 4" using e r by linarith
  have "32 * q \<le> 32 * W + 31" using e r W by linarith
  then have "q < W + 1" by presburger
  then have "q * 4 \<le> 4 * W" by linarith
  with lo show ?thesis unfolding rowSizeOf_def q_def by simp
qed

lemma rowSizeOf_32: "rowSizeOf W 32 = 4 * W"
proof -
  define q where "q = (W * 32 + 31) div 32"
  define r where "r = (W * 32 + 31) mod 32"
  have e: "W * 32 + 31 = 32 * q + r" unfolding q_def r_def by simp
  have r: "0 \<le> r" "r < 32" unfolding r_def by simp_all
  have "32 * q \<le> 32 * W + 31" using e r by linarith
  then have "q < W + 1" by presburger
  moreover have "W \<le> q" using e r by linarith
  ultimately have "q * 4 = 4 * W" by linarith
  then show ?thesis unfolding rowSizeOf_def q_def .
qed

lemma pixelOffset_deep: "8 < bc \<Longrightarrow> pixelOffset mem bc = header_BiSize mem"
  by (simp add: pixelOffset_def split: option.splits)

lemma fits_of_layout:
  assumes "0 < W" "0 < H" "3 * W \<le> rs" "rs * H \<le> L" "L \<le> maxClipboardSize"
  shows "NewRGBA_fits W H"
proof -
  have "(3 * W) * H \<le> rs * H" using assms by (intro mult_right_mono) auto
  then have "3 * (W * H) \<le> rs * H" by (simp add: mult.assoc)
  then have "3 * (W * H) \<le> 104857600" using assms unfolding maxClipboardSize_def by linarith
  then have "4 * (W * H) < (9223372036854775808::int)" "4 * (W * H) \<le> (281474976710656::int)"
    by linarith+
  then show ?thesis unfolding NewRGBA_fits_def maxAlloc_def by (simp add: mult.assoc)
qed

lemma source_address:
  assumes "0 \<le> off" "0 < W" "0 < H" "W * k \<le> rs" "off + rs * H \<le> L" "L < 2 ^ 64"
    "y < nat H" "x < nat W" "0 \<le> j" "j < k"
  shows "0 \<le> off + srcRow bu H (int y) * rs + int x * k + j"
    and "off + srcRow bu H (int y) * rs + int x * k + j < L"
    and "uintptr (srcRow bu H (int y) * rs) = srcRow bu H (int y) * rs"
proof -
  let ?s = "srcRow bu H (int y)"
  have s: "0 \<le> ?s" "?s + 1 \<le> H" using assms by (auto simp: srcRow_def)
  have k: "0 < k" using assms by simp
  have "0 < W * k" using assms k by simp
  then have rs: "0 \<le> rs" using assms by linarith
  have a: "0 \<le> ?s * rs" using s rs by simp
  have "(?s + 1) * rs \<le> H * rs" using s rs by (intro mult_right_mono) auto
  then have b: "?s * rs + rs \<le> rs * H" by (simp add: algebra_simps)
  have "(int x + 1) * k \<le> W * k" using assms k by (intro mult_right_mono) auto
  then have c: "int x * k + k \<le> rs" using assms by (simp add: algebra_simps)
  have d: "0 \<le> int x * k" using k by simp
  show "0 \<le> off + ?s * rs + int x * k + j" using a d assms by linarith
  show "off + ?s * rs + int x * k + j < L" using b c assms by linarith
  have "?s * rs < 2 ^ 64" using b c d assms k by linarith
  then show "uintptr (?s * rs) = ?s * rs" using a by (simp add: uintptr_id)
qed

lemma convertDIB_well_formed:
  assumes len: "0 < length mem" "int (length mem) \<le> maxClipboardSize"
    and W: "header_BiWidth mem = Some W" "0 < W"
    and H: "header_BiHeight mem = Some bh" "bh \<noteq> 0"
    and bc: "header_BiBitCount mem = Some bc" "bc = 24 \<or> bc = 32"
    and off: "header_BiSize mem = Some off"
    and fit: "off + rowSizeOf W bc * \<bar>bh\<bar> \<le> int (length mem)"
  shows "convertDIB mem =
    Inr \<lparr>Pix = concat (map (\<lambda>y. concat (map (\<lambda>x.
                   outPix bc mem (off + srcRow (bh > 0) \<bar>bh\<bar> (int y) * rowSizeOf W bc
                                  + int x * (bc div 8))) [0..<nat W])) [0..<nat \<bar>bh\<bar>]),
         Stride = 4 * W, Dx = W, Dy = \<bar>bh\<bar>\<rparr>"
proof -
  let ?H = "\<bar>bh\<bar>" and ?rs = "rowSizeOf W bc" and ?L = "int (length mem)" and ?k = "bc div 8"
  have Hpos: "0 < ?H" using H by simp
  have off0: "0 \<le> off" "off < 2 ^ 32" using off le_u32_range [of mem 0 off] by (auto simp: header_BiSize_def)
  have rsb: "3 * W \<le> ?rs" "W * ?k \<le> ?rs"
    using bc W rowSizeOf_24 [of W] rowSizeOf_32 [of W] by auto
  have L64: "?L < 2 ^ 64" using len by (simp add: maxClipboardSize_def)
  have rs0: "0 \<le> ?rs" using rsb W by linarith
  have rsH0: "0 \<le> ?rs * ?H" using rs0 by simp
  have rsH: "?rs * ?H \<le> ?L" using fit off0 by linarith
  have fits: "NewRGBA_fits W ?H" using fits_of_layout [OF W(2) Hpos rsb(1) rsH len(2)] .
  have po: "pixelOffset mem bc = Some off" using bc off by (auto simp: pixelOffset_deep)
  have e1: "uintptr (?rs * ?H) = ?rs * ?H" using rsH0 rsH L64 by (simp add: uintptr_id)
  have e2: "uintptr (?L - off) = ?L - off" using fit rsH0 off0 L64 by (simp add: uintptr_id)
  have chk: "\<not> (?L - off < ?rs * ?H)" using fit by linarith
  have k: "?k = 3 \<and> bc = 24 \<or> ?k = 4 \<and> bc = 32" using bc by auto
  have rows24: "convertRows pixel24 3 mem off (bh > 0) ?rs W ?H =
      Some (concat (map (\<lambda>y. concat (map (\<lambda>x. out24 mem (off + srcRow (bh > 0) ?H (int y) * ?rs + int x * 3)) [0..<nat W])) [0..<nat ?H]))"
    if "bc = 24"
  proof (rule convertRows_Some)
    fix y x assume yx: "y < nat ?H" "x < nat W"
    have k3: "W * 3 \<le> ?rs" using rsb that by simp
    note sa = source_address [OF off0(1) W(2) Hpos k3 fit L64 yx, where bu = "bh > 0"]
    show "pixel24 mem (off + uintptr (srcRow (bh > 0) ?H (int y) * ?rs) + int x * 3) =
        Some (out24 mem (off + srcRow (bh > 0) ?H (int y) * ?rs + int x * 3))"
      using sa(1) [of 0] sa(2) [of 2] sa(3) [of 0] L64 by (simp add: pixel24_inside)
  qed
  have rows32: "convertRows pixel32 4 mem off (bh > 0) ?rs W ?H =
      Some (concat (map (\<lambda>y. concat (map (\<lambda>x. out32 mem (off + srcRow (bh > 0) ?H (int y) * ?rs + int x * 4)) [0..<nat W])) [0..<nat ?H]))"
    if "bc = 32"
  proof (rule convertRows_Some)
    fix y x assume yx: "y < nat ?H" "x < nat W"
    have k4: "W * 4 \<le> ?rs" using rsb that by simp
    note sa = source_address [OF off0(1) W(2) Hpos k4 fit L64 yx, where bu = "bh > 0"]
    show "pixel32 mem (off + uintptr (srcRow (bh > 0) ?H (int y) * ?rs) + int x * 4) =
        Some (out32 mem (off + srcRow (bh > 0) ?H (int y) * ?rs + int x * 4))"
      using sa(1) [of 0] sa(2) [of 3] sa(3) [of 0] L64 by (simp add: pixel32_inside)
  qed
  have abs_eq: "(if bh < 0 then - bh else bh) = ?H" by simp
  show ?thesis
  proof (cases "bc = 24")
    case True
    then show ?thesis
      unfolding convertDIB_def Let_def
      using len W H Hpos fits po e1 e2 chk rows24 bc(1)
      by (simp add: outPix_def abs_eq)
  next
    case False
    then have b32: "bc = 32" using bc by simp
    then show ?thesis
      unfolding convertDIB_def Let_def
      using len W H Hpos fits po e1 e2 chk rows32 bc(1)
      by (simp add: outPix_def abs_eq)
  qed
qed

lemma length_concat_uniform:
  "(\<And>c. c \<in> set xs \<Longrightarrow> length c = n) \<Longrightarrow> length (concat xs) = length xs * n"
  by (induction xs) auto

lemma concat_uniform_nth:
  "(\<And>c. c \<in> set xs \<Longrightarrow> length c = n) \<Longrightarrow> i < length xs \<Longrightarrow> j < n \<Longrightarrow>
   concat xs ! (i * n + j) = xs ! i ! j"
proof (induction xs arbitrary: i)
  case Nil
  then show ?case by simp
next
  case (Cons c xs)
  show ?case
  proof (cases i)
    case 0
    then show ?thesis using Cons.prems by (simp add: nth_append)
  next
    case (Suc i')
    have "concat (c # xs) ! (i * n + j) = concat xs ! (i' * n + j)"
      using Cons.prems Suc by (simp add: nth_append)
    also have "\<dots> = xs ! i' ! j"
      using Cons.prems Suc by (intro Cons.IH) auto
    finally show ?thesis using Suc by simp
  qed
qed

lemma length_outPix [simp]: "length (outPix bc mem a) = 4"
  by (simp add: outPix_def out24_def out32_def)

lemma grid_length:
  assumes "\<And>y x. length (g y x) = 4"
  shows "length (concat (map (\<lambda>y. concat (map (g y) [0..<w])) [0..<h])) = 4 * w * h"
proof -
  have row: "\<And>y. length (concat (map (g y) [0..<w])) = w * 4"
    using length_concat_uniform [of "map (g _) [0..<w]" 4] assms by auto
  have "length (concat (map (\<lambda>y. concat (map (g y) [0..<w])) [0..<h])) = h * (w * 4)"
    using length_concat_uniform [of "map (\<lambda>y. concat (map (g y) [0..<w])) [0..<h]" "w * 4"] row
    by auto
  then show ?thesis by (simp add: mult.commute mult.left_commute)
qed

lemma grid_nth:
  assumes len: "\<And>y x. length (g y x) = 4" and y: "y < h" and x: "x < w" and j: "j < 4"
  shows "concat (map (\<lambda>y. concat (map (g y) [0..<w])) [0..<h]) ! ((y * w + x) * 4 + j) = g y x ! j"
proof -
  let ?rows = "map (\<lambda>y. concat (map (g y) [0..<w])) [0..<h]"
  have row: "\<And>c. c \<in> set ?rows \<Longrightarrow> length c = w * 4"
    using length_concat_uniform [of "map (g _) [0..<w]" 4] len by auto
  have in_row: "x * 4 + j < w * 4" using x j by simp
  have idx: "(y * w + x) * 4 + j = y * (w * 4) + (x * 4 + j)" by (simp add: algebra_simps)
  have "concat ?rows ! (y * (w * 4) + (x * 4 + j)) = ?rows ! y ! (x * 4 + j)"
    by (rule concat_uniform_nth) (use row y in_row in auto)
  then have "concat ?rows ! ((y * w + x) * 4 + j) = ?rows ! y ! (x * 4 + j)"
    by (simp only: idx)
  also have "\<dots> = concat (map (g y) [0..<w]) ! (x * 4 + j)" using y by simp
  also have "\<dots> = map (g y) [0..<w] ! x ! j"
    by (rule concat_uniform_nth) (use len x j in auto)
  also have "\<dots> = g y x ! j" using x by simp
  finally show ?thesis .
qed





lemma grid_nth_int:
  assumes len: "\<And>y x. length (g y x) = 4"
    and y: "0 \<le> y" "y < H" and x: "0 \<le> x" "x < W" and j: "j < 4"
  shows "concat (map (\<lambda>y'. concat (map (\<lambda>x'. g (int y') (int x')) [0..<nat W])) [0..<nat H]) !
           nat ((y * W + x) * 4 + int j) = g y x ! j"
proof -
  have "nat ((y * W + x) * 4 + int j) = (nat y * nat W + nat x) * 4 + j"
    using y x by (simp add: nat_add_distrib nat_mult_distrib)
  moreover have "concat (map (\<lambda>y'. concat (map (\<lambda>x'. g (int y') (int x')) [0..<nat W])) [0..<nat H]) !
      ((nat y * nat W + nat x) * 4 + j) = g (int (nat y)) (int (nat x)) ! j"
    by (rule grid_nth [where g = "\<lambda>y' x'. g (int y') (int x')"]) (use assms in auto)
  ultimately show ?thesis using y x by simp
qed

lemma snd_GetClipboardImage_locked:
  "formatAvailable cb \<Longrightarrow> openOk cb \<Longrightarrow> hData cb \<noteq> 0 \<Longrightarrow> lockOk cb \<Longrightarrow>
   snd (GetClipboardImage cb) = decodeBlock (block cb)"
  by (simp add: GetClipboardImage_def)



lemma pngPixel_alpha: "pngPixel r g b a ! 3 = a"
  by (simp add: pngPixel_def)

lemma length_encoded [simp]: "length (encoded p) = 4"
  by (simp add: encoded_def pngPixel_def)

lemma png_Encode_grid:
  assumes len: "\<And>y x. length (g y x) = 4"
    and W: "0 < W" "W < 2 ^ 32" and H: "0 < H" "H < 2 ^ 32"
  shows "png_Encode \<lparr>Pix = concat (map (\<lambda>y. concat (map (\<lambda>x. g (int y) (int x)) [0..<nat W]))
                                      [0..<nat H]),
                     Stride = 4 * W, Dx = W, Dy = H\<rparr> =
         Inr \<lparr>Pix = concat (map (\<lambda>y. concat (map (\<lambda>x. encoded (g (int y) (int x))) [0..<nat W]))
                                 [0..<nat H]),
              Stride = 4 * W, Dx = W, Dy = H\<rparr>"
proof -
  let ?pix = "concat (map (\<lambda>y. concat (map (\<lambda>x. g (int y) (int x)) [0..<nat W])) [0..<nat H])"
  have cell: "pngPixel (?pix ! nat (int y * (4 * W) + int x * 4))
                       (?pix ! nat (int y * (4 * W) + int x * 4 + 1))
                       (?pix ! nat (int y * (4 * W) + int x * 4 + 2))
                       (?pix ! nat (int y * (4 * W) + int x * 4 + 3)) = encoded (g (int y) (int x))"
    if "y < nat H" "x < nat W" for y x
  proof -
    have b: "0 \<le> int y" "int y < H" "0 \<le> int x" "int x < W" using that by auto
    have e: "?pix ! nat ((int y * W + int x) * 4 + int j) = g (int y) (int x) ! j" if "j < 4" for j
      by (rule grid_nth_int [OF len b that])
    have i0: "int y * (4 * W) + int x * 4 = (int y * W + int x) * 4 + int 0"
      and i1: "int y * (4 * W) + int x * 4 + 1 = (int y * W + int x) * 4 + int 1"
      and i2: "int y * (4 * W) + int x * 4 + 2 = (int y * W + int x) * 4 + int 2"
      and i3: "int y * (4 * W) + int x * 4 + 3 = (int y * W + int x) * 4 + int 3"
      by (simp_all add: algebra_simps)
    have e0: "?pix ! nat (int y * (4 * W) + int x * 4) = g (int y) (int x) ! 0"
      unfolding i0 by (rule e) simp
    have e1: "?pix ! nat (int y * (4 * W) + int x * 4 + 1) = g (int y) (int x) ! 1"
      unfolding i1 by (rule e) simp
    have e2: "?pix ! nat (int y * (4 * W) + int x * 4 + 2) = g (int y) (int x) ! 2"
      unfolding i2 by (rule e) simp
    have e3: "?pix ! nat (int y * (4 * W) + int x * 4 + 3) = g (int y) (int x) ! 3"
      unfolding i3 by (rule e) simp
    show ?thesis by (simp only: encoded_def e0 e1 e2 e3)
  qed
  have m: "map (\<lambda>y. concat (map (\<lambda>x.
            pngPixel (?pix ! nat (int y * (4 * W) + int x * 4))
                     (?pix ! nat (int y * (4 * W) + int x * 4 + 1))
                     (?pix ! nat (int y * (4 * W) + int x * 4 + 2))
                     (?pix ! nat (int y * (4 * W) + int x * 4 + 3))) [0..<nat W])) [0..<nat H] =
        map (\<lambda>y. concat (map (\<lambda>x. encoded (g (int y) (int x))) [0..<nat W])) [0..<nat H]"
    by (rule map_cong [OF refl], rule arg_cong [where f = concat], rule map_cong [OF refl])
       (use cell in simp)
  let ?m = "\<lparr>Pix = ?pix, Stride = 4 * W, Dx = W, Dy = H\<rparr>"
  have sel: "Pix ?m = ?pix" "Stride ?m = 4 * W" "Dx ?m = W" "Dy ?m = H" by simp_all
  have c: "\<not> (W \<le> 0 \<or> H \<le> 0 \<or> W \<ge> 2 ^ 32 \<or> H \<ge> 2 ^ 32)" using W H by simp
  show ?thesis unfolding png_Encode_def Let_def sel m if_not_P [OF c] ..
qed

lemma decodeBlock_well_formed:
  assumes len: "0 < length mem" "int (length mem) \<le> maxClipboardSize"
    and W: "header_BiWidth mem = Some W" "0 < W"
    and H: "header_BiHeight mem = Some bh" "bh \<noteq> 0"
    and bc: "header_BiBitCount mem = Some bc" "bc = 24 \<or> bc = 32"
    and off: "header_BiSize mem = Some off"
    and fit: "off + rowSizeOf W bc * \<bar>bh\<bar> \<le> int (length mem)"
  shows "decodeBlock mem =
    Inr \<lparr>Width = W, Height = \<bar>bh\<bar>,
         Data = \<lparr>Pix = concat (map (\<lambda>y. concat (map (\<lambda>x.
                        encoded (outPix bc mem (off + srcRow (bh > 0) \<bar>bh\<bar> (int y) * rowSizeOf W bc
                                               + int x * (bc div 8)))) [0..<nat W])) [0..<nat \<bar>bh\<bar>]),
                 Stride = 4 * W, Dx = W, Dy = \<bar>bh\<bar>\<rparr>\<rparr>"
proof -
  have Wb: "W < 2 ^ 32" using le_i32_range [of mem 4 W] W by (simp add: header_BiWidth_def)
  have "- (2 ^ 31) \<le> bh \<and> bh < 2 ^ 31"
    using le_i32_range [of mem 8 bh] H by (simp add: header_BiHeight_def)
  then have Hb: "0 < \<bar>bh\<bar>" "\<bar>bh\<bar> < 2 ^ 32" using H by auto
  note enc = png_Encode_grid [where g = "\<lambda>y x. outPix bc mem (off + srcRow (bh > 0) \<bar>bh\<bar> y * rowSizeOf W bc + x * (bc div 8))",
      OF length_outPix W(2) Wb Hb]
  show ?thesis
    unfolding decodeBlock_def convertDIB_well_formed [OF assms] by (simp add: enc)
qed

text \<open>
  C3, amended. For every well-formed buffer (every platform call succeeds, the declared
  length is positive and at most 100 MiB, bit depth 24 or 32, width \<open>W > 0\<close>, height field
  \<open>bh \<noteq> 0\<close> with \<open>H = \<bar>bh\<bar>\<close>, declared length at least pixel offset plus stride times \<open>H\<close>)
  \<^verbatim>\<open>GetClipboardImage\<close> succeeds, the result has width \<open>W\<close>, height \<open>H\<close> and \<open>4 * W * H\<close>
  bytes, that is \<open>W * H\<close> pixels. Every pixel decoded from a 24-bit buffer has alpha 255.
  A pixel decoded from a 32-bit buffer has the alpha of its source pixel, and 255 where
  the source alpha is 0; it is never 0.
\<close>

theorem C3_well_formed_buffer_decodes:
  assumes "formatAvailable cb" and "openOk cb" and "hData cb \<noteq> 0" and "lockOk cb"
    and "0 < length (block cb)" and "int (length (block cb)) \<le> maxClipboardSize"
    and "header_BiWidth (block cb) = Some W" and "0 < W"
    and "header_BiHeight (block cb) = Some bh" and "bh \<noteq> 0"
    and "header_BiBitCount (block cb) = Some bc" and "bc = 24 \<or> bc = 32"
    and "header_BiSize (block cb) = Some off"
    and "off + rowSizeOf W bc * \<bar>bh\<bar> \<le> int (length (block cb))"
  shows "\<exists>res. snd (GetClipboardImage cb) = Inr res \<and> Width res = W \<and> Height res = \<bar>bh\<bar> \<and>
      int (length (Pix (Data res))) = 4 * (W * \<bar>bh\<bar>) \<and>
      (\<forall>x y. 0 \<le> x \<and> x < W \<and> 0 \<le> y \<and> y < \<bar>bh\<bar> \<longrightarrow>
         (let alpha = Pix (Data res) ! nat ((y * W + x) * 4 + 3);
              a = block cb ! nat (off + srcRow (bh > 0) \<bar>bh\<bar> y * rowSizeOf W bc + x * 4 + 3)
          in (bc = 24 \<longrightarrow> alpha = 255) \<and>
             (bc = 32 \<longrightarrow> alpha = (if a = 0 then 255 else a) \<and> alpha \<noteq> 0)))"
proof -
  let ?mem = "block cb"
  let ?g = "\<lambda>y x. outPix bc ?mem (off + srcRow (bh > 0) \<bar>bh\<bar> y * rowSizeOf W bc + x * (bc div 8))"
  let ?e = "\<lambda>y x. encoded (?g y x)"
  let ?pix = "concat (map (\<lambda>y. concat (map (\<lambda>x. ?e (int y) (int x)) [0..<nat W])) [0..<nat \<bar>bh\<bar>])"
  let ?res = "\<lparr>Width = W, Height = \<bar>bh\<bar>, Data = \<lparr>Pix = ?pix, Stride = 4 * W, Dx = W, Dy = \<bar>bh\<bar>\<rparr>\<rparr>"
  have dec: "snd (GetClipboardImage cb) = Inr ?res"
    using decodeBlock_well_formed [OF assms(5-14)] assms(1-4)
    by (simp add: snd_GetClipboardImage_locked)
  have "length ?pix = 4 * nat W * nat \<bar>bh\<bar>"
    by (rule grid_length) simp
  then have len: "int (length ?pix) = 4 * (W * \<bar>bh\<bar>)"
    using assms(8) by (simp add: nat_mult_distrib)
  have "?pix ! nat ((y * W + x) * 4 + 3) = ?e y x ! 3"
    if "0 \<le> x" "x < W" "0 \<le> y" "y < \<bar>bh\<bar>" for x y
    using grid_nth_int [of ?e y "\<bar>bh\<bar>" x W 3] that by simp
  then have px: "?pix ! nat ((y * W + x) * 4 + 3) = ?g y x ! 3"
    if "0 \<le> x" "x < W" "0 \<le> y" "y < \<bar>bh\<bar>" for x y
    using that by (simp add: encoded_def pngPixel_alpha)
  have alpha: "(bc = 24 \<longrightarrow> ?g y x ! 3 = 255) \<and>
      (bc = 32 \<longrightarrow> ?g y x ! 3 =
          (if ?mem ! nat (off + srcRow (bh > 0) \<bar>bh\<bar> y * rowSizeOf W bc + x * 4 + 3) = 0 then 255
           else ?mem ! nat (off + srcRow (bh > 0) \<bar>bh\<bar> y * rowSizeOf W bc + x * 4 + 3)) \<and>
          ?g y x ! 3 \<noteq> 0)" for x y
    by (simp add: outPix_def out24_def out32_def)
  show ?thesis
    apply (rule exI [of _ ?res])
    using dec len px alpha by (simp add: Let_def)
qed

theorem C3_witness:
  "\<exists>res. snd (GetClipboardImage cb_alpha128) = Inr res \<and> Width res = 1 \<and> Height res = 1 \<and>
     int (length (Pix (Data res))) = 4 \<and> Pix (Data res) ! 3 = 128"
proof -
  have h: "formatAvailable cb_alpha128" "openOk cb_alpha128" "hData cb_alpha128 \<noteq> 0"
    "lockOk cb_alpha128" "0 < length (block cb_alpha128)"
    "int (length (block cb_alpha128)) \<le> maxClipboardSize"
    "header_BiWidth (block cb_alpha128) = Some 1" "(0::int) < 1"
    "header_BiHeight (block cb_alpha128) = Some (- 1)" "(- 1::int) \<noteq> 0"
    "header_BiBitCount (block cb_alpha128) = Some 32" "(32::int) = 24 \<or> (32::int) = 32"
    "header_BiSize (block cb_alpha128) = Some 40"
    "40 + rowSizeOf 1 32 * \<bar>- 1\<bar> \<le> int (length (block cb_alpha128))"
    by code_simp+
  have b43: "block cb_alpha128 ! 43 = 128" by code_simp
  have idx: "nat (40 + srcRow (- 1 > 0) \<bar>- 1\<bar> 0 * rowSizeOf 1 32 + 0 * 4 + 3) = 43"
    by (simp add: srcRow_def rowSizeOf_def)
  have a: "block cb_alpha128 ! nat (40 + srcRow (- 1 > 0) \<bar>- 1\<bar> 0 * rowSizeOf 1 32 + 0 * 4 + 3) = 128"
    by (simp only: idx b43)
  show ?thesis
    using C3_well_formed_buffer_decodes [OF h]
    apply (elim exE conjE)
    subgoal for res
      apply (rule exI [of _ res])
      apply (drule spec [of _ 0], drule spec [of _ 0])
      apply (simp only: Let_def a)
      apply simp
      done
    done
qed




lemma pixelOffset_range: "pixelOffset mem bc = Some po \<Longrightarrow> 0 \<le> po \<and> po < 2 ^ 64"
proof -
  assume a: "pixelOffset mem bc = Some po"
  then obtain b where b: "header_BiSize mem = Some b"
    by (auto simp: pixelOffset_def split: option.splits)
  then have br: "0 \<le> b" "b < 2 ^ 32" using le_u32_range [of mem 0 b] by (auto simp: header_BiSize_def)
  show ?thesis
  proof (cases "bc \<le> 8")
    case True
    with a b obtain v where "po = uintptr v"
      by (auto simp: pixelOffset_def Let_def split: option.splits)
    then show ?thesis by (simp add: uintptr_def)
  next
    case False
    with a b have "po = b" by (simp add: pixelOffset_def)
    with br show ?thesis by simp
  qed
qed

lemma layout_product_range:
  fixes W H bc :: int
  assumes "0 < W" "0 < H" "0 \<le> bc" "bc < 65536" "4 * W * H \<le> maxClipboardSize"
  shows "0 \<le> rowSizeOf W bc * H" and "rowSizeOf W bc * H < 2 ^ 64"
proof -
  define q where "q = (W * bc + 31) div 32"
  define P where "P = W * H"
  have "4 * P \<le> 104857600" using assms(5) unfolding P_def maxClipboardSize_def by (simp add: mult.assoc)
  then have P: "P \<le> 26214400" by linarith
  have P0: "0 \<le> P" unfolding P_def using assms by simp
  have "1 * H \<le> W * H" using assms by (intro mult_right_mono) auto
  then have HP: "H \<le> P" unfolding P_def by simp
  have n0: "0 \<le> W * bc + 31" using assms by simp
  then have q0: "0 \<le> q" unfolding q_def by simp
  have "q * 32 + (W * bc + 31) mod 32 = W * bc + 31" unfolding q_def by simp
  moreover have "0 \<le> (W * bc + 31) mod 32" by simp
  ultimately have q32: "q * 32 \<le> W * bc + 31" by linarith
  have "(q * 32) * H \<le> (W * bc + 31) * H" using q32 assms by (intro mult_right_mono) auto
  also have "\<dots> = P * bc + 31 * H" unfolding P_def by (simp add: algebra_simps)
  also have "\<dots> \<le> P * 65535 + 31 * P"
  proof -
    have "P * bc \<le> P * 65535" using P0 assms by (intro mult_left_mono) auto
    then show ?thesis using HP by linarith
  qed
  finally have "32 * (q * H) \<le> 65566 * P" by (simp add: algebra_simps)
  then have b: "32 * (q * H) \<le> 65566 * 26214400" using P by linarith
  have e: "rowSizeOf W bc * H = 4 * (q * H)" unfolding rowSizeOf_def q_def by simp
  have "0 \<le> q * H" using q0 assms by simp
  then show "0 \<le> rowSizeOf W bc * H" unfolding e by simp
  have "4 * (q * H) < (18446744073709551616::int)" using b by linarith
  then show "rowSizeOf W bc * H < 2 ^ 64" unfolding e by simp
qed

text \<open>
  C2, amended. The layout check is decided before the bit-depth check. Take a buffer that
  passes the earlier steps, whose pixel offset lies within the declared length and whose
  image of \<open>W\<close> by \<open>H\<close> pixels, at four bytes a pixel, is no larger than the size limit for
  the buffer, so that its allocation before the check is one the decoder also makes for
  accepted input. If its bit depth is not 24 or 32 then \<^verbatim>\<open>GetClipboardImage\<close> fails with
  \<^verbatim>\<open>InvalidLayout\<close> when the declared length minus the pixel offset is less than stride
  times height, and with \<^verbatim>\<open>UnsupportedDepth\<close> otherwise.
\<close>

theorem C2_layout_check_precedes_depth_check:
  assumes "formatAvailable cb" and "openOk cb" and "hData cb \<noteq> 0" and "lockOk cb"
    and "0 < length (block cb)" and "int (length (block cb)) \<le> maxClipboardSize"
    and "header_BiWidth (block cb) = Some W" and "0 < W"
    and "header_BiHeight (block cb) = Some bh" and "bh \<noteq> 0"
    and "header_BiBitCount (block cb) = Some bc" and "bc \<noteq> 24" and "bc \<noteq> 32"
    and "pixelOffset (block cb) bc = Some po" and "po \<le> int (length (block cb))"
    and "4 * W * \<bar>bh\<bar> \<le> maxClipboardSize"
  shows "snd (GetClipboardImage cb) =
    (if int (length (block cb)) - po < rowSizeOf W bc * \<bar>bh\<bar>
     then Inl (Err ErrPixelDataTooSmall) else Inl (Err ErrUnsupportedBitDepth))"
proof -
  let ?L = "int (length (block cb))" and ?H = "\<bar>bh\<bar>" and ?rs = "rowSizeOf W bc"
  have Hpos: "0 < ?H" using assms(10) by simp
  have bcr: "0 \<le> bc" "bc < 65536"
    using le_u16_range [of "block cb" 14 bc] assms(11) by (auto simp: header_BiBitCount_def)
  have po0: "0 \<le> po" using pixelOffset_range [OF assms(14)] by simp
  have "4 * W * ?H \<le> 104857600" using assms(16) by (simp add: maxClipboardSize_def)
  then have fits: "NewRGBA_fits W ?H" by (simp add: NewRGBA_fits_def maxAlloc_def)
  note pr = layout_product_range [OF assms(8) Hpos bcr assms(16)]
  have e1: "uintptr (?rs * ?H) = ?rs * ?H" using pr by (simp add: uintptr_id)
  have "?L < 2 ^ 64" using assms(6) by (simp add: maxClipboardSize_def)
  then have e2: "uintptr (?L - po) = ?L - po" using po0 assms(15) by (intro uintptr_id) auto
  have a: "(if bh < 0 then - bh else bh) = ?H" by simp
  show ?thesis
    unfolding snd_GetClipboardImage_locked [OF assms(1-4)] decodeBlock_def convertDIB_def Let_def
    using assms(5-14) Hpos fits e1 e2 by (simp add: a)
qed

theorem C2_witness:
  "snd (GetClipboardImage cb_depth16_one_row) = Inl (Err ErrUnsupportedBitDepth) \<and>
   header_BiBitCount (block cb_depth16_one_row) = Some 16 \<and>
   \<not> int (length (block cb_depth16_one_row)) - 40 < rowSizeOf 1 16 * \<bar>1\<bar>"
proof -
  have h: "formatAvailable cb_depth16_one_row" "openOk cb_depth16_one_row"
    "hData cb_depth16_one_row \<noteq> 0" "lockOk cb_depth16_one_row"
    "0 < length (block cb_depth16_one_row)"
    "int (length (block cb_depth16_one_row)) \<le> maxClipboardSize"
    "header_BiWidth (block cb_depth16_one_row) = Some 1" "(0::int) < 1"
    "header_BiHeight (block cb_depth16_one_row) = Some 1" "(1::int) \<noteq> 0"
    "header_BiBitCount (block cb_depth16_one_row) = Some 16" "(16::int) \<noteq> 24" "(16::int) \<noteq> 32"
    "pixelOffset (block cb_depth16_one_row) 16 = Some 40"
    "40 \<le> int (length (block cb_depth16_one_row))"
    "4 * 1 * \<bar>1\<bar> \<le> maxClipboardSize"
    by code_simp+
  have c: "\<not> int (length (block cb_depth16_one_row)) - 40 < rowSizeOf 1 16 * \<bar>1\<bar>"
    by code_simp
  from C2_layout_check_precedes_depth_check [OF h] c h(11) show ?thesis by simp
qed

lemma outPix_rows_agree:
  assumes rows: "\<forall>y j. 0 \<le> y \<and> y < H \<and> 0 \<le> j \<and> j < W * (bc div 8) \<longrightarrow>
      m1 ! nat (off + y * rs + j) = m2 ! nat (off + (H - 1 - y) * rs + j)"
    and bc: "bc = 24 \<or> bc = 32" and y: "0 \<le> y" "y < H" and x: "0 \<le> x" "x < W"
  shows "outPix bc m1 (off + srcRow False H y * rs + x * (bc div 8)) =
         outPix bc m2 (off + srcRow True H y * rs + x * (bc div 8))"
proof -
  let ?k = "bc div 8"
  have k: "3 \<le> ?k" "?k \<le> 4" using bc by auto
  have "(x + 1) * ?k \<le> W * ?k" using x k by (intro mult_right_mono) auto
  then have xk: "x * ?k + ?k \<le> W * ?k" by (simp add: algebra_simps)
  have x0: "0 \<le> x * ?k" using x k by simp
  have e: "m1 ! nat (off + y * rs + x * ?k + j) = m2 ! nat (off + (H - 1 - y) * rs + x * ?k + j)"
    if "0 \<le> j" "j < ?k" for j
  proof -
    have "0 \<le> x * ?k + j \<and> x * ?k + j < W * ?k" using that xk x0 by linarith
    with rows y have "m1 ! nat (off + y * rs + (x * ?k + j)) = m2 ! nat (off + (H - 1 - y) * rs + (x * ?k + j))"
      by blast
    then show ?thesis by (simp add: add.assoc)
  qed
  show ?thesis
  proof (cases "bc = 24")
    case True
    then show ?thesis using e [of 0] e [of 1] e [of 2]
      by (simp add: outPix_def out24_def srcRow_def)
  next
    case False
    then have "bc = 32" using bc by simp
    then show ?thesis using e [of 0] e [of 1] e [of 2] e [of 3]
      by (simp add: outPix_def out32_def srcRow_def)
  qed
qed

text \<open>
  C5. Let a top-down buffer (height field \<open>- H\<close>) and a bottom-up buffer (height field \<open>H\<close>)
  have the same width, bit depth 24 or 32 and pixel offset, each long enough for its layout,
  and let them encode the same image: the bytes of row \<open>y\<close> of the first are the bytes of row
  \<open>H - 1 - y\<close> of the second. Then \<^verbatim>\<open>GetClipboardImage\<close> returns the same image for both.
\<close>

theorem C5_row_order_invariance:
  assumes "formatAvailable cb1" and "openOk cb1" and "hData cb1 \<noteq> 0" and "lockOk cb1"
    and "formatAvailable cb2" and "openOk cb2" and "hData cb2 \<noteq> 0" and "lockOk cb2"
    and "0 < length (block cb1)" and "int (length (block cb1)) \<le> maxClipboardSize"
    and "0 < length (block cb2)" and "int (length (block cb2)) \<le> maxClipboardSize"
    and "header_BiWidth (block cb1) = Some W" and "header_BiWidth (block cb2) = Some W"
    and "0 < W" and "0 < H"
    and "header_BiHeight (block cb1) = Some (- H)" and "header_BiHeight (block cb2) = Some H"
    and "header_BiBitCount (block cb1) = Some bc" and "header_BiBitCount (block cb2) = Some bc"
    and "bc = 24 \<or> bc = 32"
    and "header_BiSize (block cb1) = Some off" and "header_BiSize (block cb2) = Some off"
    and "off + rowSizeOf W bc * H \<le> int (length (block cb1))"
    and "off + rowSizeOf W bc * H \<le> int (length (block cb2))"
    and rows: "\<forall>y j. 0 \<le> y \<and> y < H \<and> 0 \<le> j \<and> j < W * (bc div 8) \<longrightarrow>
      block cb1 ! nat (off + y * rowSizeOf W bc + j) =
      block cb2 ! nat (off + (H - 1 - y) * rowSizeOf W bc + j)"
  shows "snd (GetClipboardImage cb1) = snd (GetClipboardImage cb2) \<and>
         (\<exists>res. snd (GetClipboardImage cb1) = Inr res \<and> Width res = W \<and> Height res = H)"
proof -
  let ?m1 = "block cb1" and ?m2 = "block cb2" and ?rs = "rowSizeOf W bc" and ?k = "bc div 8"
  have nH: "- H \<noteq> 0" "H \<noteq> 0" "\<bar>- H\<bar> = H" "\<bar>H\<bar> = H" "\<not> (- H > 0)" "H > 0"
    using assms(16) by auto
  have fit1: "off + ?rs * \<bar>- H\<bar> \<le> int (length ?m1)" using assms(24) nH by simp
  have fit2: "off + ?rs * \<bar>H\<bar> \<le> int (length ?m2)" using assms(25) nH by simp
  have d1: "convertDIB ?m1 =
      Inr \<lparr>Pix = concat (map (\<lambda>y. concat (map (\<lambda>x.
                  outPix bc ?m1 (off + srcRow False H (int y) * ?rs + int x * ?k)) [0..<nat W])) [0..<nat H]),
              Stride = 4 * W, Dx = W, Dy = H\<rparr>"
    using convertDIB_well_formed [OF assms(9,10,13,15,17) nH(1) assms(19,21,22) fit1] nH by simp
  have d2: "convertDIB ?m2 =
      Inr \<lparr>Pix = concat (map (\<lambda>y. concat (map (\<lambda>x.
                  outPix bc ?m2 (off + srcRow True H (int y) * ?rs + int x * ?k)) [0..<nat W])) [0..<nat H]),
              Stride = 4 * W, Dx = W, Dy = H\<rparr>"
    using convertDIB_well_formed [OF assms(11,12,14,15,18) nH(2) assms(20,21,23) fit2] nH by simp
  have r1: "\<exists>res. decodeBlock ?m1 = Inr res \<and> Width res = W \<and> Height res = H"
    using decodeBlock_well_formed [OF assms(9,10,13,15,17) nH(1) assms(19,21,22) fit1] nH by simp
  have "map (\<lambda>y. concat (map (\<lambda>x. outPix bc ?m1 (off + srcRow False H (int y) * ?rs + int x * ?k)) [0..<nat W])) [0..<nat H]
      = map (\<lambda>y. concat (map (\<lambda>x. outPix bc ?m2 (off + srcRow True H (int y) * ?rs + int x * ?k)) [0..<nat W])) [0..<nat H]"
  proof (rule map_cong [OF refl], rule arg_cong [where f = concat], rule map_cong [OF refl])
    fix y x assume "y \<in> set [0..<nat H]" "x \<in> set [0..<nat W]"
    then have "0 \<le> int y" "int y < H" "0 \<le> int x" "int x < W" by auto
    from outPix_rows_agree [OF rows assms(21) this]
    show "outPix bc ?m1 (off + srcRow False H (int y) * ?rs + int x * ?k) =
          outPix bc ?m2 (off + srcRow True H (int y) * ?rs + int x * ?k)" .
  qed
  with d1 d2 have "convertDIB ?m1 = convertDIB ?m2" by simp
  then have "decodeBlock ?m1 = decodeBlock ?m2" by (simp add: decodeBlock_def)
  with r1 show ?thesis
    unfolding snd_GetClipboardImage_locked [OF assms(1-4)] snd_GetClipboardImage_locked [OF assms(5-8)]
    by simp
qed

theorem C5_witness:
  "snd (GetClipboardImage cb_top_down) = snd (GetClipboardImage cb_bottom_up) \<and>
   (\<exists>res. snd (GetClipboardImage cb_top_down) = Inr res \<and> Width res = 2 \<and> Height res = 2) \<and>
   header_BiHeight (block cb_top_down) = Some (- 2) \<and>
   header_BiHeight (block cb_bottom_up) = Some 2"
proof -
  have h: "formatAvailable cb_top_down" "openOk cb_top_down" "hData cb_top_down \<noteq> 0"
    "lockOk cb_top_down"
    "formatAvailable cb_bottom_up" "openOk cb_bottom_up" "hData cb_bottom_up \<noteq> 0"
    "lockOk cb_bottom_up"
    "0 < length (block cb_top_down)" "int (length (block cb_top_down)) \<le> maxClipboardSize"
    "0 < length (block cb_bottom_up)" "int (length (block cb_bottom_up)) \<le> maxClipboardSize"
    "header_BiWidth (block cb_top_down) = Some 2" "header_BiWidth (block cb_bottom_up) = Some 2"
    "(0::int) < 2" "(0::int) < 2"
    "header_BiHeight (block cb_top_down) = Some (- 2)"
    "header_BiHeight (block cb_bottom_up) = Some 2"
    "header_BiBitCount (block cb_top_down) = Some 24"
    "header_BiBitCount (block cb_bottom_up) = Some 24"
    "(24::int) = 24 \<or> (24::int) = 32"
    "header_BiSize (block cb_top_down) = Some 40" "header_BiSize (block cb_bottom_up) = Some 40"
    "40 + rowSizeOf 2 24 * 2 \<le> int (length (block cb_top_down))"
    "40 + rowSizeOf 2 24 * 2 \<le> int (length (block cb_bottom_up))"
    by code_simp+
  have rows: "\<forall>y j. 0 \<le> y \<and> y < 2 \<and> 0 \<le> j \<and> j < 2 * (24 div 8) \<longrightarrow>
      block cb_top_down ! nat (40 + y * rowSizeOf 2 24 + j) =
      block cb_bottom_up ! nat (40 + (2 - 1 - y) * rowSizeOf 2 24 + j)"
  proof (intro allI impI)
    fix y j :: int
    assume "0 \<le> y \<and> y < 2 \<and> 0 \<le> j \<and> j < 2 * (24 div 8)"
    then have "y \<in> {0, 1}" "j \<in> {0, 1, 2, 3, 4, 5}" by auto
    moreover have "\<forall>y \<in> set [0, 1 :: int]. \<forall>j \<in> set [0, 1, 2, 3, 4, 5 :: int].
      block cb_top_down ! nat (40 + y * rowSizeOf 2 24 + j) =
      block cb_bottom_up ! nat (40 + (2 - 1 - y) * rowSizeOf 2 24 + j)"
      by code_simp
    ultimately show "block cb_top_down ! nat (40 + y * rowSizeOf 2 24 + j) =
      block cb_bottom_up ! nat (40 + (2 - 1 - y) * rowSizeOf 2 24 + j)"
      by auto
  qed
  from C5_row_order_invariance [OF h rows]
  have "snd (GetClipboardImage cb_top_down) = snd (GetClipboardImage cb_bottom_up)"
    and "\<exists>res. snd (GetClipboardImage cb_top_down) = Inr res \<and> Width res = 2 \<and> Height res = 2"
    by blast+
  with h(17,18) show ?thesis by blast
qed

lemma peek_agree:
  assumes "length m1 = length m2" and "0 \<le> b" and "b < 2 ^ 64"
    and "nat b < length m1 \<Longrightarrow> m1 ! nat b = m2 ! nat b"
  shows "peek m2 b = peek m1 b"
  using assms by (auto simp: peek_Some_iff)

lemma convertRows_cong:
  assumes "\<And>y x. y < nat H \<Longrightarrow> x < nat W \<Longrightarrow>
     pixel m2 (p + uintptr (srcRow bu H (int y) * rs) + int x * k) =
     pixel m1 (p + uintptr (srcRow bu H (int y) * rs) + int x * k)"
  shows "convertRows pixel k m2 p bu rs W H = convertRows pixel k m1 p bu rs W H"
proof -
  have req: "map (\<lambda>y. convertRow pixel k m2 (p + uintptr (srcRow bu H (int y) * rs)) W) [0..<nat H] =
        map (\<lambda>y. convertRow pixel k m1 (p + uintptr (srcRow bu H (int y) * rs)) W) [0..<nat H]"
  proof (rule map_cong [OF refl])
    fix y assume "y \<in> set [0..<nat H]"
    then have y: "y < nat H" by simp
    have meq: "map (\<lambda>x. pixel m2 (p + uintptr (srcRow bu H (int y) * rs) + int x * k)) [0..<nat W] =
          map (\<lambda>x. pixel m1 (p + uintptr (srcRow bu H (int y) * rs) + int x * k)) [0..<nat W]"
      by (rule map_cong [OF refl]) (use assms y in simp)
    show "convertRow pixel k m2 (p + uintptr (srcRow bu H (int y) * rs)) W =
          convertRow pixel k m1 (p + uintptr (srcRow bu H (int y) * rs)) W"
      by (simp only: convertRow_def meq)
  qed
  show ?thesis by (simp only: convertRows_def req)
qed

lemma le_u16_agree:
  assumes "length m1 = length m2" "0 \<le> a" "a + 1 < 2 ^ 64"
    and "\<And>j. j < 2 \<Longrightarrow> nat a + j < length m1 \<Longrightarrow> m1 ! (nat a + j) = m2 ! (nat a + j)"
  shows "le_u16 m2 a = le_u16 m1 a"
proof -
  have "peek m2 (a + int j) = peek m1 (a + int j)" if "j < 2" for j
    by (rule peek_agree) (use assms that in \<open>auto simp: nat_add_distrib\<close>)
  from this [of 0] this [of 1] show ?thesis by (simp add: le_u16_def)
qed

lemma le_u32_agree:
  assumes "length m1 = length m2" "0 \<le> a" "a + 3 < 2 ^ 64"
    and "\<And>j. j < 4 \<Longrightarrow> nat a + j < length m1 \<Longrightarrow> m1 ! (nat a + j) = m2 ! (nat a + j)"
  shows "le_u32 m2 a = le_u32 m1 a"
proof -
  have "peek m2 (a + int j) = peek m1 (a + int j)" if "j < 4" for j
    by (rule peek_agree) (use assms that in \<open>auto simp: nat_add_distrib\<close>)
  from this [of 0] this [of 1] this [of 2] this [of 3] show ?thesis by (simp add: le_u32_def)
qed

lemma pixel_agree:
  assumes len: "length m1 = length m2" and a: "0 \<le> a" "a + 3 < 2 ^ 64"
    and eq: "\<And>i. nat a \<le> i \<Longrightarrow> i < length m1 \<Longrightarrow> m1 ! i = m2 ! i"
  shows "pixel24 m2 a = pixel24 m1 a" and "pixel32 m2 a = pixel32 m1 a"
proof -
  have "peek m2 (a + int j) = peek m1 (a + int j)" if "j < 4" for j
    by (rule peek_agree) (use assms that in \<open>auto simp: nat_add_distrib\<close>)
  from this [of 0] this [of 1] this [of 2] this [of 3]
  show "pixel24 m2 a = pixel24 m1 a" and "pixel32 m2 a = pixel32 m1 a"
    by (simp_all add: pixel24_def pixel32_def)
qed

lemma convertRows_agree:
  assumes len: "length m1 = length m2"
    and eq: "\<And>i. nat po \<le> i \<Longrightarrow> i < length m1 \<Longrightarrow> m1 ! i = m2 ! i"
    and po: "0 \<le> po" "po < 2 ^ 32"
    and dims: "0 < W" "0 < H" "NewRGBA_fits W H"
    and rs: "W * k \<le> rs" "rs \<le> 4 * W" "0 < k" "k \<le> 4"
    and pixel: "pixel = pixel24 \<or> pixel = pixel32"
  shows "convertRows pixel k m2 po bu rs W H = convertRows pixel k m1 po bu rs W H"
proof (rule convertRows_cong)
  fix y x assume yx: "y < nat H" "x < nat W"
  have WH: "4 * (W * H) < (9223372036854775808::int)"
    using dims by (simp add: NewRGBA_fits_def mult.assoc)
  have "rs * H \<le> (4 * W) * H" using rs dims by (intro mult_right_mono) auto
  then have "rs * H \<le> 4 * (W * H)" by (simp only: mult.assoc)
  then have rsH: "rs * H < (9223372036854775808::int)" using WH by linarith
  have po': "po < (4294967296::int)" using po by simp
  have L: "po + rs * H \<le> po + rs * H" "po + rs * H < 2 ^ 64" using po' rsH by auto
  let ?s = "srcRow bu H (int y)"
  note sa = source_address [OF po(1) dims(1,2) rs(1) L yx, where bu = bu]
  have u: "uintptr (?s * rs) = ?s * rs" using sa(3) [of 0] rs by simp
  have s0: "0 \<le> ?s" using dims yx by (auto simp: srcRow_def)
  have "0 < W * k" using rs dims by simp
  then have rs0: "0 \<le> rs" using rs by linarith
  have t0: "0 \<le> ?s * rs" "0 \<le> int x * k" using s0 rs0 rs by auto
  let ?a = "po + uintptr (?s * rs) + int x * k"
  have a0: "po \<le> ?a" unfolding u using t0 by linarith
  have "po + ?s * rs + int x * k + 0 < po + rs * H" using sa(2) [of 0] rs by simp
  then have a3: "?a + 3 < 2 ^ 64" unfolding u using po' rsH by simp
  have a00: "0 \<le> ?a" using a0 po by linarith
  have eq': "m1 ! i = m2 ! i" if "nat ?a \<le> i" "i < length m1" for i
  proof -
    have "nat po \<le> nat ?a" using a0 by simp
    then show ?thesis using that eq by simp
  qed
  have "pixel24 m2 ?a = pixel24 m1 ?a" "pixel32 m2 ?a = pixel32 m1 ?a"
    using pixel_agree [OF len a00 a3 eq'] by blast+
  then show "pixel m2 ?a = pixel m1 ?a" using pixel by auto
qed

text \<open>
  C10. The result of \<^verbatim>\<open>GetClipboardImage\<close> depends only on the declared length, on the size,
  width, height, bit-count and color-count fields of the header (bytes 0 to 11, 14 to 15 and
  32 to 35) and on the bytes from the pixel data offset on. Two buffers of the same length
  that agree on these bytes, and so differ at most in the planes, compression, image-size,
  resolution and important-color fields before the pixel data, give the same result, with
  the same platform calls: a buffer that declares compressed pixel data is decoded as
  uncompressed pixels, not rejected.
\<close>

theorem C10_ignored_header_fields:
  assumes len: "length m2 = length (block cb)"
    and agree: "\<forall>i < length (block cb).
        (i < 12 \<or> (14 \<le> i \<and> i < 16) \<or> (32 \<le> i \<and> i < 36) \<or>
         (case header_BiSize (block cb) of Some off \<Rightarrow> off \<le> int i | None \<Rightarrow> False))
        \<longrightarrow> block cb ! i = m2 ! i"
  shows "GetClipboardImage (cb\<lparr>block := m2\<rparr>) = GetClipboardImage cb"
proof -
  let ?m1 = "block cb"
  have len': "length ?m1 = length m2" using len by simp
  have h: "\<And>i. i < length ?m1 \<Longrightarrow> i < 12 \<or> (14 \<le> i \<and> i < 16) \<or> (32 \<le> i \<and> i < 36) \<Longrightarrow> ?m1 ! i = m2 ! i"
    using agree by blast
  have hs: "header_BiSize m2 = header_BiSize ?m1"
    unfolding header_BiSize_def by (rule le_u32_agree [OF len']) (use h in auto)
  have hw: "header_BiWidth m2 = header_BiWidth ?m1"
    unfolding header_BiWidth_def le_i32_def
    by (subst le_u32_agree [OF len', of 4]) (use h in auto)
  have hh: "header_BiHeight m2 = header_BiHeight ?m1"
    unfolding header_BiHeight_def le_i32_def
    by (subst le_u32_agree [OF len', of 8]) (use h in auto)
  have hb: "header_BiBitCount m2 = header_BiBitCount ?m1"
    unfolding header_BiBitCount_def by (rule le_u16_agree [OF len']) (use h in auto)
  have hc: "header_BiClrUsed m2 = header_BiClrUsed ?m1"
    unfolding header_BiClrUsed_def by (rule le_u32_agree [OF len']) (use h in auto)
  have po: "pixelOffset m2 bc = pixelOffset ?m1 bc" for bc
    unfolding pixelOffset_def hs hc ..
  have cr: "convertRows pixel k m2 p bu (rowSizeOf W bc) W H = convertRows pixel k ?m1 p bu (rowSizeOf W bc) W H"
    if "pixelOffset ?m1 bc = Some p" "0 < W" "0 < H" "NewRGBA_fits W H"
      "bc = 24 \<and> k = 3 \<and> pixel = pixel24 \<or> bc = 32 \<and> k = 4 \<and> pixel = pixel32"
    for pixel k p bu W bc H
  proof -
    have bs: "header_BiSize ?m1 = Some p" using that by (auto simp: pixelOffset_deep)
    then have p: "0 \<le> p" "p < 2 ^ 32" using le_u32_range [of ?m1 0 p] by (auto simp: header_BiSize_def)
    have eq: "\<And>i. nat p \<le> i \<Longrightarrow> i < length ?m1 \<Longrightarrow> ?m1 ! i = m2 ! i"
      using agree bs p by (auto simp: nat_le_iff)
    have rs: "W * k \<le> rowSizeOf W bc" "rowSizeOf W bc \<le> 4 * W" "0 < k" "k \<le> 4"
      using that rowSizeOf_24 [of W] rowSizeOf_32 [of W] by auto
    show ?thesis
      by (rule convertRows_agree [OF len' eq p that(2-4) rs]) (use that in auto)
  qed
  note defs = convertDIB_def Let_def hw hh hb po len
  have "convertDIB m2 = convertDIB ?m1"
  proof (cases "length ?m1 = 0 \<or> int (length ?m1) > maxClipboardSize")
    case True
    then show ?thesis unfolding defs by auto
  next
    case size: False
    show ?thesis
    proof (cases "header_BiWidth ?m1")
      case None
      then show ?thesis unfolding defs by simp
    next
      case W: (Some W)
      show ?thesis
      proof (cases "header_BiHeight ?m1")
        case None
        then show ?thesis unfolding defs using W by simp
      next
        case bh: (Some bh)
        show ?thesis
        proof (cases "header_BiBitCount ?m1")
          case None
          then show ?thesis unfolding defs using W bh by simp
        next
          case bc: (Some bc)
          let ?H = "if bh < 0 then - bh else bh"
          show ?thesis
          proof (cases "W \<le> 0 \<or> ?H \<le> 0")
            case True
            then show ?thesis unfolding defs using size W bh bc by simp
          next
            case dims: False
            show ?thesis
            proof (cases "pixelOffset ?m1 bc")
              case None
              then show ?thesis unfolding defs using size W bh bc dims by simp
            next
              case p: (Some p)
              show ?thesis
              proof (cases "NewRGBA_fits W ?H")
                case False
                then show ?thesis unfolding defs using size W bh bc dims p by simp
              next
                case fits: True
                have c24: "convertRows pixel24 3 m2 p (0 < bh) (rowSizeOf W 24) W ?H =
                    convertRows pixel24 3 ?m1 p (0 < bh) (rowSizeOf W 24) W ?H" if "bc = 24"
                  by (rule cr) (use that p dims fits in auto)
                have c32: "convertRows pixel32 4 m2 p (0 < bh) (rowSizeOf W 32) W ?H =
                    convertRows pixel32 4 ?m1 p (0 < bh) (rowSizeOf W 32) W ?H" if "bc = 32"
                  by (rule cr) (use that p dims fits in auto)
                show ?thesis
                  unfolding defs using size W bh bc dims p fits c24 c32 by simp
              qed
            qed
          qed
        qed
      qed
    qed
  qed
  then have "decodeBlock m2 = decodeBlock ?m1" by (simp add: decodeBlock_def)
  then show ?thesis by (simp add: GetClipboardImage_def)
qed

theorem C10_witness:
  "GetClipboardImage (cb_plain\<lparr>block := block_compressed\<rparr>) = GetClipboardImage cb_plain \<and>
   block_compressed \<noteq> block cb_plain \<and>
   snd (GetClipboardImage cb_plain) =
     Inr \<lparr>Width = 1, Height = 1, Data = \<lparr>Pix = [191, 127, 63, 4], Stride = 4, Dx = 1, Dy = 1\<rparr>\<rparr>"
proof -
  have len: "length block_compressed = length (block cb_plain)" by code_simp
  have "\<forall>i \<in> set [0 ..< length (block cb_plain)].
        (i < 12 \<or> (14 \<le> i \<and> i < 16) \<or> (32 \<le> i \<and> i < 36) \<or>
         (case header_BiSize (block cb_plain) of Some off \<Rightarrow> off \<le> int i | None \<Rightarrow> False))
        \<longrightarrow> block cb_plain ! i = block_compressed ! i"
    by code_simp
  then have agree: "\<forall>i < length (block cb_plain).
        (i < 12 \<or> (14 \<le> i \<and> i < 16) \<or> (32 \<le> i \<and> i < 36) \<or>
         (case header_BiSize (block cb_plain) of Some off \<Rightarrow> off \<le> int i | None \<Rightarrow> False))
        \<longrightarrow> block cb_plain ! i = block_compressed ! i"
    by simp
  have d: "block_compressed \<noteq> block cb_plain" by code_simp
  have r: "snd (GetClipboardImage cb_plain) =
     Inr \<lparr>Width = 1, Height = 1, Data = \<lparr>Pix = [191, 127, 63, 4], Stride = 4, Dx = 1, Dy = 1\<rparr>\<rparr>"
    by code_simp
  from C10_ignored_header_fields [OF len agree] d r show ?thesis by simp
qed

section \<open>Properties of the compositor\<close>

subsection \<open>Loops that keep the buffer invariant\<close>

lemma int64_id: "- (2 ^ 63) \<le> v \<Longrightarrow> v < 2 ^ 63 \<Longrightarrow> int64 v = v"
  by (simp add: int64_def)

lemma int64_nonneg: "0 \<le> v \<Longrightarrow> v < 2 ^ 63 \<Longrightarrow> int64 v = v"
  by (simp add: int64_def)

lemma maintainsI: "(\<And>dc. I dc \<Longrightarrow> \<exists>dc'. f dc = Some dc' \<and> I dc') \<Longrightarrow> maintains I f"
  by (simp add: maintains_def)

lemma maintainsD: "maintains I f \<Longrightarrow> I dc \<Longrightarrow> \<exists>dc'. f dc = Some dc' \<and> I dc'"
  by (simp add: maintains_def)

lemma maintains_Some: "maintains I Some"
  by (simp add: maintains_def)

lemma maintains_if:
  "maintains I f \<Longrightarrow> maintains I g \<Longrightarrow> maintains I (\<lambda>dc. if P dc then f dc else g dc)"
  by (simp add: maintains_def)

lemma maintains_bind:
  assumes "maintains I f" and "\<And>d. maintains I (g d)"
  shows "maintains I (\<lambda>dc. f dc \<bind> (\<lambda>d. g d d))"
proof (rule maintainsI)
  fix dc assume "I dc"
  from maintainsD [OF assms(1) this] obtain d where d: "f dc = Some d" "I d" by blast
  from maintainsD [OF assms(2) d(2)] obtain d' where "g d d = Some d'" "I d'" by blast
  with d show "\<exists>dc'. f dc \<bind> (\<lambda>d. g d d) = Some dc' \<and> I dc'" by simp
qed

lemma maintains_forEach:
  "(\<And>x. x \<in> set xs \<Longrightarrow> maintains I (body x)) \<Longrightarrow> maintains I (forEach xs body)"
proof (induction xs)
  case Nil
  show ?case by (simp add: maintains_def)
next
  case (Cons x xs)
  have sx: "maintains I (body x)" and sxs: "maintains I (forEach xs body)"
    using Cons by auto
  show ?case
  proof (rule maintainsI)
    fix dc assume "I dc"
    from maintainsD [OF sx this] obtain d where d: "body x dc = Some d" "I d" by blast
    from maintainsD [OF sxs d(2)] obtain d' where "forEach xs body d = Some d'" "I d'" by blast
    with d show "\<exists>dc'. forEach (x # xs) body dc = Some dc' \<and> I dc'" by simp
  qed
qed

lemma frame_pixelCount: "frame_inv W H dc \<Longrightarrow> pixelCount dc = W * H"
proof -
  assume inv: "frame_inv W H dc"
  then have "int (length (pixels dc)) = W * H" "W * H < 2 ^ 63" "width dc = W" "height dc = H"
    by (auto simp: frame_inv_def)
  moreover have "0 \<le> int (length (pixels dc))" by simp
  ultimately show ?thesis by (simp add: pixelCount_def int64_nonneg)
qed

lemma slice_frame: "frame_inv W H dc \<Longrightarrow> slice dc = Some dc"
proof -
  assume inv: "frame_inv W H dc"
  then have "int (length (pixels dc)) = W * H" by (simp add: frame_inv_def)
  then have "0 \<le> W * H" by (metis of_nat_0_le_iff)
  then show ?thesis by (simp add: slice_def frame_pixelCount [OF inv])
qed

lemma maintains_sliced: "safe W H f \<Longrightarrow> safe W H (\<lambda>dc. slice dc \<bind> f)"
  by (simp add: maintains_def slice_frame)

lemma establishes_sliced:
  "establishes (frame_inv W H) P f \<Longrightarrow> establishes (frame_inv W H) P (\<lambda>dc. slice dc \<bind> f)"
  by (simp add: establishes_def slice_frame)

lemma store_inside:
  assumes "frame_inv W H dc" "0 \<le> i" "i < W * H"
  shows "\<exists>dc'. store i c dc = Some dc' \<and> frame_inv W H dc'"
  using assms frame_pixelCount [OF assms(1)] by (auto simp: store_def frame_inv_def)

lemma index_inside:
  fixes px py W H :: int
  assumes "0 \<le> px" "px < W" "0 \<le> py" "py < H"
  shows "0 \<le> py * W + px" and "py * W + px < W * H"
proof -
  have W: "0 < W" using assms by linarith
  show "0 \<le> py * W + px" using assms W by simp
  have "(py + 1) * W \<le> H * W" using assms W by (intro mult_right_mono) auto
  then show "py * W + px < W * H" using assms by (simp add: algebra_simps)
qed

lemma maintains_plot:
  assumes "W * H < 2 ^ 63"
  shows "safe W H (plot px py c)"
proof (rule maintainsI)
  fix dc assume inv: "frame_inv W H dc"
  then have wh: "width dc = W" "height dc = H" by (auto simp: frame_inv_def)
  show "\<exists>dc'. plot px py c dc = Some dc' \<and> frame_inv W H dc'"
  proof (cases "px \<ge> 0 \<and> px < W \<and> py \<ge> 0 \<and> py < H")
    case True
    then have i: "0 \<le> py * W + px" "py * W + px < W * H" using index_inside by auto
    then have "int64 (py * W + px) = py * W + px" using assms by (intro int64_id) auto
    with store_inside [OF inv i] True wh show ?thesis by (simp add: plot_def)
  next
    case False
    with inv wh show ?thesis by (auto simp: plot_def)
  qed
qed

lemma maintains_fillRect:
  assumes "W * H < 2 ^ 63"
  shows "safe W H (fillRect x y w h c)"
  unfolding fillRect_def
  by (intro maintains_forEach maintains_plot assms)

lemma maintains_drawSelectionBorder:
  assumes "W * H < 2 ^ 63"
  shows "safe W H (drawSelectionBorder x y w h)"
  unfolding drawSelectionBorder_def
  by (intro maintains_sliced maintains_forEach maintains_bind maintains_plot assms)

lemma maintains_drawCornerHandles:
  assumes "W * H < 2 ^ 63"
  shows "safe W H (drawCornerHandles x y w h)"
  unfolding drawCornerHandles_def Let_def
  by (intro maintains_sliced maintains_forEach) (auto intro: maintains_fillRect assms)

lemma maintains_drawGlyphs:
  assumes "W * H < 2 ^ 63"
  shows "safe W H (drawGlyphs font curX y str)"
proof (induction str arbitrary: curX)
  case Nil
  have "drawGlyphs font curX y [] = Some" by (rule ext) simp
  then show ?case by (simp add: maintains_Some)
next
  case (Cons ch str)
  show ?case
  proof (cases "map_of font ch")
    case None
    then have "drawGlyphs font curX y (ch # str) = drawGlyphs font (int64 (curX + 6)) y str"
      by (intro ext) simp
    then show ?thesis using Cons by simp
  next
    case (Some glyph)
    have g: "safe W H (forEach (enumerate 0 glyph) (\<lambda>(col, bits).
                  forEach [0 .. 6] (\<lambda>row dc.
                    if bits AND push_bit (nat (6 - row)) 1 \<noteq> 0
                    then plot (int64 (curX + int col)) (int64 (y + row)) white dc
                    else Some dc)))"
      by (intro maintains_forEach) (auto intro!: maintains_forEach maintains_if maintains_plot maintains_Some assms)
    have "drawGlyphs font curX y (ch # str) = (\<lambda>dc.
        forEach (enumerate 0 glyph) (\<lambda>(col, bits).
                  forEach [0 .. 6] (\<lambda>row dc.
                    if bits AND push_bit (nat (6 - row)) 1 \<noteq> 0
                    then plot (int64 (curX + int col)) (int64 (y + row)) white dc
                    else Some dc)) dc \<bind> (\<lambda>d. drawGlyphs font (int64 (curX + 6)) y str d))"
      using Some by (intro ext) simp
    then show ?thesis using maintains_bind [OF g, of "\<lambda>_. drawGlyphs font (int64 (curX + 6)) y str"] Cons
      by simp
  qed
qed

lemma pixel_in_Pix:
  assumes ok: "rgba_ok img" and px: "0 \<le> px" "px < Dx img" and py: "0 \<le> py" "py < Dy img"
  shows "0 \<le> py * Stride img + px * 4"
    and "py * Stride img + px * 4 + 3 < int (length (Pix img))"
    and "int (length (Pix img)) < 2 ^ 63"
proof -
  from ok px py have s: "0 \<le> Stride img"
    and fit: "(Dy img - 1) * Stride img + 4 * Dx img \<le> int (length (Pix img))"
    and len: "int (length (Pix img)) < 2 ^ 63"
    by (auto simp: rgba_ok_def)
  show "int (length (Pix img)) < 2 ^ 63" by (rule len)
  have a: "0 \<le> py * Stride img" using py s by simp
  then show "0 \<le> py * Stride img + px * 4" using px by linarith
  have "py * Stride img \<le> (Dy img - 1) * Stride img" using py s by (intro mult_right_mono) auto
  then show "py * Stride img + px * 4 + 3 < int (length (Pix img))" using fit px by linarith
qed

lemma blitPixel_store:
  assumes ok: "rgba_ok img" and px: "0 \<le> px" "px < Dx img" "px < W"
    and py: "0 \<le> py" "py < Dy img" "py < H"
    and wh: "width dc = W" "W * H < 2 ^ 63"
  shows "blitPixel img px py dc = store (py * W + px) (background img px py) dc"
proof -
  note p = pixel_in_Pix [OF ok px(1,2) py(1,2)]
  let ?s = "py * Stride img + px * 4"
  have s: "int64 ?s = ?s" using p by (intro int64_id) auto
  have s1: "int64 (?s + 1) = ?s + 1" using p by (intro int64_id) auto
  have s2: "int64 (?s + 2) = ?s + 2" using p by (intro int64_id) auto
  have i: "0 \<le> py * W + px" "py * W + px < W * H"
    using index_inside [of px W py H] px py by auto
  then have d: "int64 (py * W + px) = py * W + px" using wh by (intro int64_id) auto
  have r: "pixAt img ?s = Some (Pix img ! nat ?s)"
    "pixAt img (?s + 1) = Some (Pix img ! nat (?s + 1))"
    "pixAt img (?s + 2) = Some (Pix img ! nat (?s + 2))"
    using p by (auto simp: pixAt_def)
  show ?thesis
    unfolding blitPixel_def Let_def s s1 s2 d wh(1) r background_def by simp
qed

lemma maintains_blitPixel:
  assumes "rgba_ok img" "0 \<le> px" "px < Dx img" "px < W" "0 \<le> py" "py < Dy img" "py < H"
    "W * H < 2 ^ 63"
  shows "safe W H (blitPixel img px py)"
proof (rule maintainsI)
  fix dc assume inv: "frame_inv W H dc"
  then have wh: "width dc = W" by (simp add: frame_inv_def)
  have i: "0 \<le> py * W + px" "py * W + px < W * H"
    using index_inside [of px W py H] assms by auto
  show "\<exists>dc'. blitPixel img px py dc = Some dc' \<and> frame_inv W H dc'"
    unfolding blitPixel_store [OF assms(1-7) wh assms(8)]
    by (rule store_inside [OF inv i])
qed

lemma maintains_drawScreenshot:
  assumes "W * H < 2 ^ 63" and "case screenshot of None \<Rightarrow> True | Some img \<Rightarrow> rgba_ok img"
  shows "safe W H (drawScreenshot screenshot)"
proof (cases screenshot)
  case None
  then have "drawScreenshot screenshot = Some" by (intro ext) (simp add: drawScreenshot_def)
  then show ?thesis by (simp add: maintains_Some)
next
  case (Some img)
  then have ok: "rgba_ok img" using assms by simp
  show ?thesis
  proof (rule maintainsI)
    fix dc assume inv: "frame_inv W H dc"
    then have wh: "width dc = W" "height dc = H" by (auto simp: frame_inv_def)
    have "safe W H (forEach [0 .. minInt (Dy img) H - 1] (\<lambda>y.
            forEach [0 .. minInt (Dx img) W - 1] (\<lambda>x. blitPixel img x y)))"
      by (intro maintains_forEach maintains_blitPixel ok assms(1))
         (auto simp: minInt_def split: if_splits)
    from maintainsD [OF this inv]
    show "\<exists>dc'. drawScreenshot screenshot dc = Some dc' \<and> frame_inv W H dc'"
      using Some wh by (simp add: drawScreenshot_def slice_frame [OF inv])
  qed
qed

lemma maintains_clearRegion:
  assumes "W * H < 2 ^ 63" and "case screenshot of None \<Rightarrow> True | Some img \<Rightarrow> rgba_ok img"
  shows "safe W H (clearRegion x y w h screenshot)"
proof (cases screenshot)
  case None
  then have "clearRegion x y w h screenshot = Some" by (intro ext) (simp add: clearRegion_def)
  then show ?thesis by (simp add: maintains_Some)
next
  case (Some img)
  then have ok: "rgba_ok img" using assms by simp
  have inner: "safe W H (\<lambda>dc. let px = int64 (x + dx) in
                if px < 0 \<or> px \<ge> width dc \<or> px \<ge> Dx img then Some dc
                else blitPixel img px py dc)" if "0 \<le> py" "py < H" "py < Dy img" for dx py
  proof (rule maintainsI)
    fix dc assume inv: "frame_inv W H dc"
    then have wh: "width dc = W" by (simp add: frame_inv_def)
    show "\<exists>dc'. (let px = int64 (x + dx) in
                if px < 0 \<or> px \<ge> width dc \<or> px \<ge> Dx img then Some dc
                else blitPixel img px py dc) = Some dc' \<and> frame_inv W H dc'"
    proof (cases "int64 (x + dx) < 0 \<or> int64 (x + dx) \<ge> W \<or> int64 (x + dx) \<ge> Dx img")
      case True
      then show ?thesis using inv wh by (auto simp: Let_def)
    next
      case False
      then have "safe W H (blitPixel img (int64 (x + dx)) py)"
        using that by (intro maintains_blitPixel ok assms(1)) auto
      from maintainsD [OF this inv] False show ?thesis using wh by (auto simp: Let_def)
    qed
  qed
  have outer: "safe W H (\<lambda>dc. let py = int64 (y + dy) in
            if py < 0 \<or> py \<ge> height dc \<or> py \<ge> Dy img then Some dc
            else
              forEach [0 .. w - 1] (\<lambda>dx dc.
                let px = int64 (x + dx) in
                if px < 0 \<or> px \<ge> width dc \<or> px \<ge> Dx img then Some dc
                else blitPixel img px py dc) dc)" for dy
  proof (rule maintainsI)
    fix dc assume inv: "frame_inv W H dc"
    then have wh: "height dc = H" by (simp add: frame_inv_def)
    let ?py = "int64 (y + dy)"
    show "\<exists>dc'. (let py = int64 (y + dy) in
            if py < 0 \<or> py \<ge> height dc \<or> py \<ge> Dy img then Some dc
            else
              forEach [0 .. w - 1] (\<lambda>dx dc.
                let px = int64 (x + dx) in
                if px < 0 \<or> px \<ge> width dc \<or> px \<ge> Dx img then Some dc
                else blitPixel img px py dc) dc) = Some dc' \<and> frame_inv W H dc'"
    proof (cases "?py < 0 \<or> ?py \<ge> H \<or> ?py \<ge> Dy img")
      case True
      then show ?thesis using inv wh by (auto simp: Let_def)
    next
      case False
      then have "safe W H (forEach [0 .. w - 1] (\<lambda>dx dc.
                let px = int64 (x + dx) in
                if px < 0 \<or> px \<ge> width dc \<or> px \<ge> Dx img then Some dc
                else blitPixel img px ?py dc))"
        by (intro maintains_forEach inner) auto
      from maintainsD [OF this inv] False show ?thesis using wh by (auto simp: Let_def)
    qed
  qed
  have "clearRegion x y w h screenshot = (\<lambda>dc. slice dc \<bind> forEach [0 .. h - 1] (\<lambda>dy dc.
            let py = int64 (y + dy) in
            if py < 0 \<or> py \<ge> height dc \<or> py \<ge> Dy img then Some dc
            else
              forEach [0 .. w - 1] (\<lambda>dx dc.
                let px = int64 (x + dx) in
                if px < 0 \<or> px \<ge> width dc \<or> px \<ge> Dx img then Some dc
                else blitPixel img px py dc) dc))"
    using Some by (intro ext) (simp add: clearRegion_def)
  then show ?thesis
    using maintains_sliced [OF maintains_forEach [of "[0 .. h - 1]", OF outer]] by simp
qed

lemma fillOverlay_body:
  assumes "frame_inv W H dc" "0 \<le> i" "i < W * H"
  shows "(case load i dc of None \<Rightarrow> None
          | Some existing \<Rightarrow>
              let r = drop_bit 16 existing AND 0xFF;
                  g = drop_bit 8 existing AND 0xFF;
                  b = existing AND 0xFF
              in store i (argb 255 (darken alpha r) (darken alpha g) (darken alpha b)) dc)
         = store i (shade alpha (pixels dc ! nat i)) dc"
  using assms frame_pixelCount [OF assms(1)] by (simp add: load_def frame_inv_def shade_def Let_def)

lemma maintains_fillOverlay:
  assumes "0 \<le> W" "0 \<le> H" "W * H < 2 ^ 63"
  shows "safe W H (fillOverlay alpha)"
proof (rule maintainsI)
  fix dc assume inv: "frame_inv W H dc"
  then have wh: "width dc = W" "height dc = H" by (auto simp: frame_inv_def)
  have "0 \<le> W * H" using assms by simp
  then have n: "int64 (W * H) = W * H" using assms(3) by (rule int64_nonneg)
  have "safe W H (forEach [0 .. W * H - 1] (\<lambda>i dc.
        case load i dc of
          None \<Rightarrow> None
        | Some existing \<Rightarrow>
            let r = drop_bit 16 existing AND 0xFF;
                g = drop_bit 8 existing AND 0xFF;
                b = existing AND 0xFF
            in store i (argb 255 (darken alpha r) (darken alpha g) (darken alpha b)) dc))"
  proof (intro maintains_forEach maintainsI)
    fix i d assume i: "i \<in> set [0 .. W * H - 1]" and d: "frame_inv W H d"
    then have r: "0 \<le> i" "i < W * H" by auto
    show "\<exists>dc'. (case load i d of None \<Rightarrow> None
          | Some existing \<Rightarrow>
              let r = drop_bit 16 existing AND 0xFF;
                  g = drop_bit 8 existing AND 0xFF;
                  b = existing AND 0xFF
              in store i (argb 255 (darken alpha r) (darken alpha g) (darken alpha b)) d) = Some dc' \<and>
          frame_inv W H dc'"
      unfolding fillOverlay_body [OF d r] by (rule store_inside [OF d r])
  qed
  from maintainsD [OF this inv]
  show "\<exists>dc'. fillOverlay alpha dc = Some dc' \<and> frame_inv W H dc'"
    by (simp add: fillOverlay_def slice_frame [OF inv] frame_pixelCount [OF inv])
qed

lemma maintains_drawSizeIndicator:
  assumes "W * H < 2 ^ 63"
  shows "safe W H (drawSizeIndicator x y w h)"
proof (rule maintainsI)
  fix dc assume inv: "frame_inv W H dc"
  then have wh: "width dc = W" "height dc = H" by (auto simp: frame_inv_def)
  have "safe W H (\<lambda>dc. fillRect pillX pillY pw ph blue dc \<bind> (\<lambda>d. drawText tx ty str d))"
    for pillX pillY pw ph tx ty str
    unfolding drawText_def
    by (rule maintains_bind [OF maintains_fillRect [OF assms] maintains_drawGlyphs [OF assms]])
  from maintainsD [OF this inv]
  show "\<exists>dc'. drawSizeIndicator x y w h dc = Some dc' \<and> frame_inv W H dc'"
    by (simp add: drawSizeIndicator_def Let_def slice_frame [OF inv])
qed

lemma maintains_drawInstructions:
  assumes "W * H < 2 ^ 63"
  shows "safe W H (drawInstructions sel)"
proof (rule maintainsI)
  fix dc assume inv: "frame_inv W H dc"
  have "safe W H (\<lambda>dc. fillRect pillX pillY pw ph bgColor dc \<bind>
      (\<lambda>d. drawInstructionText tx ty str d))"
    for pillX pillY pw ph tx ty str
    unfolding drawInstructionText_def
    by (rule maintains_bind [OF maintains_fillRect [OF assms] maintains_drawGlyphs [OF assms]])
  from maintainsD [OF this inv]
  show "\<exists>dc'. drawInstructions sel dc = Some dc' \<and> frame_inv W H dc'"
    by (simp add: drawInstructions_def Let_def slice_frame [OF inv])
qed

lemma maintains_DrawOverlay:
  assumes "0 \<le> W" "0 \<le> H" "W * H < 2 ^ 63"
    and "case screenshot of None \<Rightarrow> True | Some img \<Rightarrow> rgba_ok img"
  shows "safe W H (DrawOverlay scale screenshot sel)"
proof -
  note s1 = maintains_drawScreenshot [OF assms(3,4)]
  note s2 = maintains_fillOverlay [OF assms(1-3)]
  note s3 = maintains_clearRegion [OF assms(3,4)]
  note s4 = maintains_drawSelectionBorder [OF assms(3)]
  note s5 = maintains_drawCornerHandles [OF assms(3)]
  note s6 = maintains_drawSizeIndicator [OF assms(3)]
  note s7 = maintains_drawInstructions [OF assms(3)]
  have sel: "safe W H (\<lambda>dc. if IsDragging sel then
             (let x1 = minInt (StartX sel) (EndX sel); y1 = minInt (StartY sel) (EndY sel);
                  x2 = maxInt (StartX sel) (EndX sel); y2 = maxInt (StartY sel) (EndY sel);
                  w = int64 (x2 - x1); h = int64 (y2 - y1)
              in do {
                dc \<leftarrow> clearRegion x1 y1 w h screenshot dc;
                dc \<leftarrow> drawSelectionBorder x1 y1 w h dc;
                dc \<leftarrow> drawCornerHandles x1 y1 w h dc;
                drawSizeIndicator x1 (int64 (y2 + 8)) (scale w) (scale h) dc
              })
           else Some dc)"
    unfolding Let_def
    by (intro maintains_if maintains_bind maintains_Some s3 s4 s5 s6)
  have "DrawOverlay scale screenshot sel = (\<lambda>dc. drawScreenshot screenshot dc \<bind> (\<lambda>dc.
      fillOverlay 128 dc \<bind> (\<lambda>dc.
      (if IsDragging sel then
             (let x1 = minInt (StartX sel) (EndX sel); y1 = minInt (StartY sel) (EndY sel);
                  x2 = maxInt (StartX sel) (EndX sel); y2 = maxInt (StartY sel) (EndY sel);
                  w = int64 (x2 - x1); h = int64 (y2 - y1)
              in do {
                dc \<leftarrow> clearRegion x1 y1 w h screenshot dc;
                dc \<leftarrow> drawSelectionBorder x1 y1 w h dc;
                dc \<leftarrow> drawCornerHandles x1 y1 w h dc;
                drawSizeIndicator x1 (int64 (y2 + 8)) (scale w) (scale h) dc
              })
           else Some dc) \<bind> (\<lambda>dc. drawInstructions sel dc))))"
    by (intro ext) (simp add: DrawOverlay_def)
  moreover have "safe W H \<dots>"
    by (intro maintains_bind s1 s2 sel s7)
  ultimately show ?thesis by simp
qed

lemma ctx_ok_frame: "ctx_ok dc \<Longrightarrow> frame_inv (width dc) (height dc) dc"
  by (simp add: ctx_ok_def frame_inv_def)

lemma position_of_index:
  fixes i W H :: int
  assumes "0 \<le> W" "0 \<le> H" "0 \<le> i" "i < W * H"
  shows "\<exists>px py. 0 \<le> px \<and> px < W \<and> 0 \<le> py \<and> py < H \<and> i = py * W + px"
proof -
  have W: "0 < W"
  proof (rule ccontr)
    assume "\<not> 0 < W"
    then have "W = 0" using assms by simp
    then show False using assms by simp
  qed
  define q r where "q = i div W" and "r = i mod W"
  have e: "i = q * W + r" unfolding q_def r_def by simp
  have r: "0 \<le> r" "r < W" unfolding r_def using W by simp_all
  have "\<not> H \<le> q"
  proof
    assume "H \<le> q"
    then have hw: "H * W \<le> q * W" using W by (intro mult_right_mono) auto
    have "i < H * W" using assms by (simp add: mult.commute)
    then show False using hw e r by linarith
  qed
  moreover have "\<not> q < 0"
  proof
    assume "q < 0"
    then have "q + 1 \<le> 0" by simp
    then have "(q + 1) * W \<le> 0 * W" using W by (intro mult_right_mono) auto
    then have "q * W + W \<le> 0" by (simp add: algebra_simps)
    then show False using assms e r by linarith
  qed
  ultimately have "0 \<le> r \<and> r < W \<and> 0 \<le> q \<and> q < H \<and> i = q * W + r"
    using r e by auto
  then show ?thesis by blast
qed

lemma safe_stays_inside:
  assumes "ctx_ok dc" and "safe (width dc) (height dc) f"
  shows "stays_inside dc (f dc)"
proof -
  from maintainsD [OF assms(2) ctx_ok_frame [OF assms(1)]]
  obtain dc' where d: "f dc = Some dc'" "frame_inv (width dc) (height dc) dc'" by blast
  have "\<exists>px py. 0 \<le> px \<and> px < width dc \<and> 0 \<le> py \<and> py < height dc \<and> i = py * width dc + px"
    if "i \<in> set (writes dc')" for i
    using position_of_index [of "width dc" "height dc" i] that d(2) assms(1)
    by (auto simp: frame_inv_def ctx_ok_def)
  moreover have "length (pixels dc') = length (pixels dc)"
    using d(2) assms(1) by (simp add: frame_inv_def ctx_ok_def)
  ultimately show ?thesis using d by (auto simp: stays_inside_def frame_inv_def)
qed

text \<open>
  C7. Let the draw context be well formed and the screenshot be nil or an image whose
  pixels lie in its \<^verbatim>\<open>Pix\<close>. Then, for every selection geometry, every text, every opacity
  and every result of the scale conversion, each drawing primitive and \<^verbatim>\<open>DrawOverlay\<close>
  returns (no index of a slice is out of range), leaves the buffer with its size, and has
  assigned only indices \<open>py * width + px\<close> with \<open>0 \<le> px < width\<close> and \<open>0 \<le> py < height\<close>.
\<close>

theorem C7_writes_stay_inside:
  assumes "ctx_ok dc"
    and "case screenshot of None \<Rightarrow> True | Some img \<Rightarrow> rgba_ok img"
  shows "stays_inside dc (drawScreenshot screenshot dc) \<and>
         stays_inside dc (fillOverlay alpha dc) \<and>
         stays_inside dc (clearRegion x y w h screenshot dc) \<and>
         stays_inside dc (drawSelectionBorder x y w h dc) \<and>
         stays_inside dc (drawCornerHandles x y w h dc) \<and>
         stays_inside dc (drawSizeIndicator x y w h dc) \<and>
         stays_inside dc (drawText x y str dc) \<and>
         stays_inside dc (drawInstructionText x y str dc) \<and>
         stays_inside dc (drawInstructions sel dc) \<and>
         stays_inside dc (DrawOverlay scale screenshot sel dc)"
proof -
  from assms(1) have b: "0 \<le> width dc" "0 \<le> height dc" "width dc * height dc < 2 ^ 63"
    by (auto simp: ctx_ok_def)
  note s = safe_stays_inside [OF assms(1)]
  show ?thesis
    unfolding drawText_def [abs_def] drawInstructionText_def [abs_def]
    by (intro conjI s maintains_drawScreenshot maintains_fillOverlay maintains_clearRegion
          maintains_drawSelectionBorder maintains_drawCornerHandles maintains_drawSizeIndicator
          maintains_drawGlyphs maintains_drawInstructions maintains_DrawOverlay b assms(2))
qed

theorem C7_witness:
  "ctx_ok dc0 \<and> rgba_ok img0 \<and>
   stays_inside dc0 (DrawOverlay (\<lambda>v. 2 * v) (Some img0) sel0 dc0) \<and>
   stays_inside dc0 (drawSelectionBorder (- 5) (- 5) 100 100 dc0)"
proof -
  have h: "ctx_ok dc0" "case Some img0 of None \<Rightarrow> True | Some img \<Rightarrow> rgba_ok img"
    by (simp_all add: ctx_ok_def rgba_ok_def dc0_def img0_def)
  from C7_writes_stay_inside [OF h, where x = "- 5" and y = "- 5" and w = 100 and h = 100
      and sel = sel0 and scale = "\<lambda>v. 2 * v"] h
  show ?thesis by simp
qed

subsection \<open>The restored selection\<close>

lemma u32_255: "(255 :: u32) = mask 8"
  by (simp add: mask_eq_exp_minus_1)

lemma byte_255: "(255 :: byte) = mask 8"
  by (simp add: mask_eq_exp_minus_1)

lemma channels_argb:
  fixes r g b :: byte
  shows "red (argb 255 (ucast r) (ucast g) (ucast b)) = r"
    and "green (argb 255 (ucast r) (ucast g) (ucast b)) = g"
    and "blue_of (argb 255 (ucast r) (ucast g) (ucast b)) = b"
  unfolding red_def green_def blue_of_def argb_def u32_255
  by (rule bit_word_eqI; auto simp: bit_simps dest: bit_imp_le_length)+

lemma alpha_argb: "alpha_of (argb 255 r g b) = 255"
  unfolding alpha_of_def argb_def u32_255 byte_255
  by (rule bit_word_eqI) (auto simp: bit_simps)

lemma clearRegion_rows:
  "clearRegion x y w h (Some img) =
     (\<lambda>dc. slice dc \<bind> forEach [0 .. h - 1] (clearRow img x y w))"
  unfolding clearRegion_def clearRow_def [abs_def] clearPixel_def [abs_def] by (intro ext) simp

lemma establishesD:
  "establishes I P f \<Longrightarrow> I dc \<Longrightarrow> \<exists>dc'. f dc = Some dc' \<and> I dc' \<and> P dc'"
  by (simp add: establishes_def)

lemma establishes_forEach:
  assumes "x0 \<in> set xs"
    and "\<And>x. x \<in> set xs \<Longrightarrow> maintains I (body x)"
    and "\<And>x. x \<in> set xs \<Longrightarrow> maintains (\<lambda>d. I d \<and> P d) (body x)"
    and "establishes I P (body x0)"
  shows "establishes I P (forEach xs body)"
  using assms(1-3)
proof (induction xs)
  case Nil
  then show ?case by simp
next
  case (Cons x xs)
  show ?case unfolding establishes_def
  proof (intro allI impI)
    fix dc assume I: "I dc"
    show "\<exists>dc'. forEach (x # xs) body dc = Some dc' \<and> I dc' \<and> P dc'"
    proof (cases "x = x0")
      case True
      from establishesD [OF assms(4) I] obtain d where d: "body x0 dc = Some d" "I d" "P d" by blast
      have "maintains (\<lambda>d. I d \<and> P d) (forEach xs body)"
        by (rule maintains_forEach) (use Cons.prems in auto)
      from maintainsD [OF this, of d] d obtain d' where "forEach xs body d = Some d'" "I d'" "P d'"
        by blast
      with d True show ?thesis by simp
    next
      case False
      then have x0: "x0 \<in> set xs" using Cons.prems by auto
      have "maintains I (body x)" using Cons.prems by auto
      from maintainsD [OF this I] obtain d where d: "body x dc = Some d" "I d" by blast
      have "establishes I P (forEach xs body)"
        by (rule Cons.IH [OF x0]) (use Cons.prems in auto)
      from establishesD [OF this d(2)] obtain d' where "forEach xs body d = Some d'" "I d'" "P d'"
        by blast
      with d show ?thesis by simp
    qed
  qed
qed

lemma index_unique:
  fixes px py px0 py0 W :: int
  assumes "0 \<le> px" "px < W" "0 \<le> px0" "px0 < W" "py * W + px = py0 * W + px0"
  shows "px = px0 \<and> py = py0"
proof -
  have W: "0 \<le> W" using assms by linarith
  have "\<not> py < py0"
  proof
    assume "py < py0"
    then have "(py + 1) * W \<le> py0 * W" using W by (intro mult_right_mono) auto
    then have "py * W + W \<le> py0 * W" by (simp add: algebra_simps)
    then show False using assms by linarith
  qed
  moreover have "\<not> py0 < py"
  proof
    assume "py0 < py"
    then have "(py0 + 1) * W \<le> py * W" using W by (intro mult_right_mono) auto
    then have "py0 * W + W \<le> py * W" by (simp add: algebra_simps)
    then show False using assms by linarith
  qed
  ultimately have "py = py0" by linarith
  then show ?thesis using assms(5) by simp
qed

lemma store_at:
  assumes "frame_inv W H dc" "0 \<le> i" "i < W * H"
  shows "\<exists>dc'. store i c dc = Some dc' \<and> frame_inv W H dc' \<and> pixels dc' ! nat i = c"
  using assms frame_pixelCount [OF assms(1)] by (auto simp: store_def frame_inv_def)

lemma store_keeps:
  assumes "frame_inv W H dc" "0 \<le> i" "i < W * H" "0 \<le> j"
    and "pixels dc ! nat j = cj" and "i = j \<Longrightarrow> c = cj"
  shows "\<exists>dc'. store i c dc = Some dc' \<and> frame_inv W H dc' \<and> pixels dc' ! nat j = cj"
proof (cases "i = j")
  case True
  then show ?thesis using store_at [OF assms(1-3), of c] assms(6) by auto
next
  case False
  then have "nat i \<noteq> nat j" using assms by auto
  then show ?thesis using assms frame_pixelCount [OF assms(1)]
    by (auto simp: store_def frame_inv_def)
qed

lemma clearPixel_maintains:
  assumes ok: "rgba_ok img" and WH: "W * H < 2 ^ 63"
    and py: "0 \<le> py" "py < H" "py < Dy img"
    and Jw: "\<And>d. J d \<Longrightarrow> width d = W"
    and Jstore: "\<And>px d. 0 \<le> px \<Longrightarrow> px < W \<Longrightarrow> px < Dx img \<Longrightarrow> J d \<Longrightarrow>
        \<exists>d'. store (py * W + px) (background img px py) d = Some d' \<and> J d'"
  shows "maintains J (clearPixel img x py dx)"
proof (rule maintainsI)
  fix dc assume J: "J dc"
  then have w: "width dc = W" by (rule Jw)
  let ?px = "int64 (x + dx)"
  show "\<exists>dc'. clearPixel img x py dx dc = Some dc' \<and> J dc'"
  proof (cases "?px < 0 \<or> ?px \<ge> W \<or> ?px \<ge> Dx img")
    case True
    then show ?thesis using J w by (auto simp: clearPixel_def Let_def)
  next
    case False
    then have px: "0 \<le> ?px" "?px < Dx img" "?px < W" by auto
    have "clearPixel img x py dx dc = store (py * W + ?px) (background img ?px py) dc"
      using False w blitPixel_store [OF ok px py(1,3,2) w WH]
      by (auto simp: clearPixel_def Let_def)
    then show ?thesis using Jstore [OF px(1,3,2) J] by simp
  qed
qed

lemma clearRow_maintains:
  assumes ok: "rgba_ok img" and WH: "W * H < 2 ^ 63"
    and Jw: "\<And>d. J d \<Longrightarrow> width d = W \<and> height d = H"
    and Jstore: "\<And>px py d. 0 \<le> px \<Longrightarrow> px < W \<Longrightarrow> px < Dx img \<Longrightarrow>
        0 \<le> py \<Longrightarrow> py < H \<Longrightarrow> py < Dy img \<Longrightarrow> J d \<Longrightarrow>
        \<exists>d'. store (py * W + px) (background img px py) d = Some d' \<and> J d'"
  shows "maintains J (clearRow img x y w dy)"
proof (rule maintainsI)
  fix dc assume J: "J dc"
  then have wh: "width dc = W" "height dc = H" using Jw by auto
  let ?py = "int64 (y + dy)"
  show "\<exists>dc'. clearRow img x y w dy dc = Some dc' \<and> J dc'"
  proof (cases "?py < 0 \<or> ?py \<ge> H \<or> ?py \<ge> Dy img")
    case True
    then show ?thesis using J wh by (auto simp: clearRow_def Let_def)
  next
    case False
    then have py: "0 \<le> ?py" "?py < H" "?py < Dy img" by auto
    have "maintains J (forEach [0 .. w - 1] (clearPixel img x ?py))"
      by (intro maintains_forEach clearPixel_maintains [OF ok WH py]) (use Jw Jstore py in auto)
    from maintainsD [OF this J] False wh show ?thesis by (auto simp: clearRow_def Let_def)
  qed
qed

lemma frame_store:
  assumes "0 \<le> px" "px < W" "0 \<le> py" "py < H" "frame_inv W H d"
  shows "\<exists>d'. store (py * W + px) c d = Some d' \<and> frame_inv W H d'"
  using store_inside [OF assms(5)] index_inside [OF assms(1-4)] by blast

lemma frame_store_keeps:
  assumes "0 \<le> px" "px < W" "0 \<le> py" "py < H"
    and "0 \<le> px0" "px0 < W" "0 \<le> py0" "py0 < H"
    and "frame_inv W H d \<and> pixels d ! nat (py0 * W + px0) = background img px0 py0"
  shows "\<exists>d'. store (py * W + px) (background img px py) d = Some d' \<and>
     frame_inv W H d' \<and> pixels d' ! nat (py0 * W + px0) = background img px0 py0"
proof (rule store_keeps)
  show "frame_inv W H d" "pixels d ! nat (py0 * W + px0) = background img px0 py0"
    using assms by auto
  show "0 \<le> py * W + px" "py * W + px < W * H" using index_inside [OF assms(1-4)] by auto
  show "0 \<le> py0 * W + px0" using index_inside [OF assms(5-8)] by auto
  assume "py * W + px = py0 * W + px0"
  from index_unique [OF assms(1,2,5,6) this]
  show "background img px py = background img px0 py0" by simp
qed

lemma clearRegion_establishes:
  assumes ok: "rgba_ok img" and WH: "W * H < 2 ^ 63"
    and rect: "0 \<le> x" "0 \<le> y" "x + w \<le> W" "y + h \<le> H" "x + w \<le> Dx img" "y + h \<le> Dy img"
    and p0: "x \<le> px0" "px0 < x + w" "y \<le> py0" "py0 < y + h"
  shows "establishes (frame_inv W H)
           (\<lambda>d. pixels d ! nat (py0 * W + px0) = background img px0 py0)
           (clearRegion x y w h (Some img))"
proof -
  let ?I = "frame_inv W H" and ?P = "\<lambda>d. pixels d ! nat (py0 * W + px0) = background img px0 py0"
  have b0: "0 \<le> px0" "px0 < W" "0 \<le> py0" "py0 < H" "px0 < Dx img" "py0 < Dy img"
    using rect p0 by auto
  have small: "W < 2 ^ 63" "H < 2 ^ 63"
  proof -
    have "0 < W" "0 < H" using b0 by auto
    then have "W \<le> W * H" "H \<le> W * H" by (simp_all add: mult_le_cancel_left1 mult_le_cancel_right2)
    then show "W < 2 ^ 63" "H < 2 ^ 63" using WH by auto
  qed
  have Iw: "\<And>d. ?I d \<Longrightarrow> width d = W \<and> height d = H" by (simp add: frame_inv_def)
  have IPw: "\<And>d. ?I d \<and> ?P d \<Longrightarrow> width d = W \<and> height d = H" by (simp add: frame_inv_def)
  have rowI: "maintains ?I (clearRow img x y w dy)" for dy
    by (rule clearRow_maintains [OF ok WH Iw]) (auto intro: frame_store)
  have rowIP: "maintains (\<lambda>d. ?I d \<and> ?P d) (clearRow img x y w dy)" for dy
    by (rule clearRow_maintains [OF ok WH IPw]) (auto intro!: frame_store_keeps b0)
  have pixI: "maintains ?I (clearPixel img x py0 dx)" for dx
  proof (rule clearPixel_maintains [OF ok WH b0(3,4,6)])
    show "\<And>d. ?I d \<Longrightarrow> width d = W" by (simp add: frame_inv_def)
    show "\<And>px d. 0 \<le> px \<Longrightarrow> px < W \<Longrightarrow> px < Dx img \<Longrightarrow> ?I d \<Longrightarrow>
        \<exists>d'. store (py0 * W + px) (background img px py0) d = Some d' \<and> ?I d'"
      by (rule frame_store [OF _ _ b0(3,4)])
  qed
  have pixIP: "maintains (\<lambda>d. ?I d \<and> ?P d) (clearPixel img x py0 dx)" for dx
  proof (rule clearPixel_maintains [OF ok WH b0(3,4,6)])
    show "\<And>d. ?I d \<and> ?P d \<Longrightarrow> width d = W" by (simp add: frame_inv_def)
    show "\<And>px d. 0 \<le> px \<Longrightarrow> px < W \<Longrightarrow> px < Dx img \<Longrightarrow> ?I d \<and> ?P d \<Longrightarrow>
        \<exists>d'. store (py0 * W + px) (background img px py0) d = Some d' \<and> ?I d' \<and> ?P d'"
      by (rule frame_store_keeps [OF _ _ b0(3,4) b0(1-4)])
  qed
  have pix0: "establishes ?I ?P (clearPixel img x py0 (px0 - x))"
    unfolding establishes_def
  proof (intro allI impI)
    fix dc assume I: "?I dc"
    then have w: "width dc = W" by (simp add: frame_inv_def)
    have e: "int64 px0 = px0" using b0 small by (simp add: int64_nonneg)
    have "clearPixel img x py0 (px0 - x) dc = store (py0 * W + px0) (background img px0 py0) dc"
      using b0 w blitPixel_store [OF ok b0(1,5,2,3,6,4) w WH]
      by (simp add: clearPixel_def Let_def e)
    moreover have "0 \<le> py0 * W + px0" "py0 * W + px0 < W * H"
      using index_inside [OF b0(1-4)] by auto
    ultimately show "\<exists>dc'. clearPixel img x py0 (px0 - x) dc = Some dc' \<and> ?I dc' \<and> ?P dc'"
      using store_at [OF I] by simp
  qed
  have row0: "establishes ?I ?P (clearRow img x y w (py0 - y))"
    unfolding establishes_def
  proof (intro allI impI)
    fix dc assume I: "?I dc"
    then have wh: "width dc = W" "height dc = H" by (auto simp: frame_inv_def)
    have e: "int64 py0 = py0" using b0 small by (simp add: int64_nonneg)
    have "px0 - x \<in> set [0 .. w - 1]" using p0 by auto
    then have "establishes ?I ?P (forEach [0 .. w - 1] (clearPixel img x py0))"
      by (rule establishes_forEach) (rule pixI pixIP pix0)+
    from establishesD [OF this I]
    show "\<exists>dc'. clearRow img x y w (py0 - y) dc = Some dc' \<and> ?I dc' \<and> ?P dc'"
      using b0 wh by (simp add: clearRow_def Let_def e)
  qed
  have "py0 - y \<in> set [0 .. h - 1]" using p0 by auto
  then have "establishes ?I ?P (forEach [0 .. h - 1] (clearRow img x y w))"
    by (rule establishes_forEach) (rule rowI rowIP row0)+
  then show ?thesis unfolding clearRegion_rows by (rule establishes_sliced)
qed

text \<open>
  C8. Let the rectangle normalised from two corner points lie inside the buffer and inside
  the background image. Then the background blit, the darkening with opacity 128 and the
  restore all return, and afterwards every pixel \<open>(px, py)\<close> of the rectangle holds the red,
  green and blue bytes of the background image at \<open>(px, py)\<close>, with alpha 255.
\<close>

theorem C8_restore_reproduces_background:
  assumes "ctx_ok dc" and "rgba_ok img"
    and "x1 = minInt sx ex" and "x2 = maxInt sx ex"
    and "y1 = minInt sy ey" and "y2 = maxInt sy ey"
    and "0 \<le> x1" and "x2 \<le> width dc" and "0 \<le> y1" and "y2 \<le> height dc"
    and "x2 \<le> Dx img" and "y2 \<le> Dy img"
    and "x1 \<le> px" and "px < x2" and "y1 \<le> py" and "py < y2"
  shows "\<exists>d1 d2 d3.
      drawScreenshot (Some img) dc = Some d1 \<and> fillOverlay 128 d1 = Some d2 \<and>
      clearRegion x1 y1 (int64 (x2 - x1)) (int64 (y2 - y1)) (Some img) d2 = Some d3 \<and>
      (let p = pixels d3 ! nat (py * width dc + px); s = py * Stride img + px * 4
       in red p = Pix img ! nat s \<and> green p = Pix img ! nat (s + 1) \<and>
          blue_of p = Pix img ! nat (s + 2) \<and> alpha_of p = 255)"
proof -
  let ?W = "width dc" and ?H = "height dc"
  from assms(1) have b: "0 \<le> ?W" "0 \<le> ?H" "?W * ?H < 2 ^ 63"
    by (auto simp: ctx_ok_def)
  have img: "case Some img of None \<Rightarrow> True | Some img \<Rightarrow> rgba_ok img" using assms(2) by simp
  from maintainsD [OF maintains_drawScreenshot [OF b(3) img] ctx_ok_frame [OF assms(1)]]
  obtain d1 where d1: "drawScreenshot (Some img) dc = Some d1" "frame_inv ?W ?H d1" by blast
  from maintainsD [OF maintains_fillOverlay [OF b] d1(2)]
  obtain d2 where d2: "fillOverlay 128 d1 = Some d2" "frame_inv ?W ?H d2" by blast
  have pos: "0 < ?W" "0 < ?H" using assms by auto
  then have "?W \<le> ?W * ?H" "?H \<le> ?W * ?H"
    by (simp_all add: mult_le_cancel_left1 mult_le_cancel_right2)
  then have small: "?W < 2 ^ 63" "?H < 2 ^ 63" using b by auto
  have w: "int64 (x2 - x1) = x2 - x1" and h: "int64 (y2 - y1) = y2 - y1"
    using assms small by (auto intro!: int64_nonneg)
  have "establishes (frame_inv ?W ?H)
           (\<lambda>d. pixels d ! nat (py * ?W + px) = background img px py)
           (clearRegion x1 y1 (x2 - x1) (y2 - y1) (Some img))"
    by (rule clearRegion_establishes [OF assms(2) b(3)]) (use assms in auto)
  from establishesD [OF this d2(2)] obtain d3 where
    d3: "clearRegion x1 y1 (x2 - x1) (y2 - y1) (Some img) d2 = Some d3"
      "pixels d3 ! nat (py * ?W + px) = background img px py" by blast
  have "red (background img px py) = Pix img ! nat (py * Stride img + px * 4)"
    "green (background img px py) = Pix img ! nat (py * Stride img + px * 4 + 1)"
    "blue_of (background img px py) = Pix img ! nat (py * Stride img + px * 4 + 2)"
    "alpha_of (background img px py) = 255"
    unfolding background_def by (simp_all add: channels_argb alpha_argb)
  with d1 d2 d3 show ?thesis by (simp add: w h Let_def)
qed

theorem C8_witness:
  "ctx_ok dc0 \<and> rgba_ok img0 \<and>
   (\<exists>d1 d2 d3.
      drawScreenshot (Some img0) dc0 = Some d1 \<and> fillOverlay 128 d1 = Some d2 \<and>
      clearRegion 1 0 (int64 (3 - 1)) (int64 (2 - 0)) (Some img0) d2 = Some d3 \<and>
      red (pixels d3 ! 6) = 24 \<and> green (pixels d3 ! 6) = 25 \<and> blue_of (pixels d3 ! 6) = 26 \<and>
      alpha_of (pixels d3 ! 6) = 255)"
proof -
  have h: "ctx_ok dc0" "rgba_ok img0"
    by (simp_all add: ctx_ok_def rgba_ok_def dc0_def img0_def)
  have g: "(1::int) = minInt 3 1" "(3::int) = maxInt 3 1" "(0::int) = minInt 2 0" "(2::int) = maxInt 2 0"
    "(0::int) \<le> 1" "3 \<le> width dc0" "(0::int) \<le> 0" "2 \<le> height dc0" "3 \<le> Dx img0" "2 \<le> Dy img0"
    "(1::int) \<le> 2" "(2::int) < 3" "(0::int) \<le> 1" "(1::int) < 2"
    by (simp_all add: minInt_def maxInt_def dc0_def img0_def)
  have p: "Pix img0 ! nat (1 * Stride img0 + 2 * 4) = 24"
    "Pix img0 ! nat (1 * Stride img0 + 2 * 4 + 1) = 25"
    "Pix img0 ! nat (1 * Stride img0 + 2 * 4 + 2) = 26"
    "nat (1 * width dc0 + 2) = 6"
    by (simp_all add: img0_def dc0_def)
  from C8_restore_reproduces_background [OF h g] h show ?thesis
    unfolding Let_def p by simp
qed

subsection \<open>Rounding to binary64\<close>

lemma round_even_err: "\<bar>of_int (round_even q) - q\<bar> \<le> 1 / 2"
proof -
  define f :: rat where "f = of_int \<lfloor>q\<rfloor>"
  have b: "f \<le> q" "q < f + 1" unfolding f_def by linarith+
  have r: "of_int (round_even q) = f \<and> q - f \<le> 1 / 2 \<or>
           of_int (round_even q) = f + 1 \<and> 1 / 2 \<le> q - f"
    unfolding round_even_def Let_def f_def by auto
  then show ?thesis using b by (auto simp: abs_if)
qed

lemma round_even_nonneg: "0 \<le> q \<Longrightarrow> 0 \<le> round_even q"
  unfolding round_even_def Let_def by (auto intro: add_nonneg_nonneg)

lemma round_even_of_int: "round_even (of_int z) = z"
  unfolding round_even_def Let_def by simp

lemma ilog2_le:
  assumes "0 < x"
  shows "2 powi (ilog2 x) \<le> x"
proof -
  obtain p q where pq: "quotient_of x = (p, q)" by (cases "quotient_of x")
  then have q: "0 < q" and x: "x = of_int p / of_int q"
    by (auto simp: quotient_of_denom_pos quotient_of_div)
  have p: "0 < p" using assms x q by (simp add: zero_less_divide_iff)
  define a b where "a = floorlog 2 (nat p)" and "b = floorlog 2 (nat q)"
  define k where "k = int a - int b"
  have k: "ilog2 x = (if 2 powi k \<le> x then k else k - 1)"
    unfolding ilog2_def pq k_def a_def b_def bitlen_def by (simp add: Let_def)
  show ?thesis
  proof (cases "2 powi k \<le> x")
    case True
    then show ?thesis using k by simp
  next
    case False
    have pa: "2 ^ (a - 1) \<le> nat p" and qb: "nat q < 2 ^ b"
      using floorlog_bounds [of "nat p" 2] floorlog_bounds [of "nat q" 2] p q
      unfolding a_def b_def by auto
    have a1: "1 \<le> a" using p unfolding a_def by (simp add: floorlog_def)
    have "(2::rat) ^ (a - 1) \<le> of_int p"
    proof -
      have "(2::int) ^ (a - 1) \<le> p" using pa p by (simp add: le_nat_iff)
      then have "(of_int ((2::int) ^ (a - 1)) :: rat) \<le> of_int p" by (simp only: of_int_le_iff)
      then show ?thesis by simp
    qed
    moreover have "(of_int q :: rat) \<le> 2 ^ b"
    proof -
      have "q < (2::int) ^ b" using qb q by (simp add: nat_less_iff)
      then have "(of_int q :: rat) < of_int ((2::int) ^ b)" by (simp only: of_int_less_iff)
      then show ?thesis by simp
    qed
    ultimately have "(2::rat) ^ (a - 1) / 2 ^ b \<le> of_int p / of_int q"
      using q p by (intro frac_le) auto
    moreover have "(2::rat) powi (k - 1) = 2 ^ (a - 1) / 2 ^ b"
    proof -
      have "k - 1 = int (a - 1) - int b" using a1 unfolding k_def by simp
      then show ?thesis by (simp add: power_int_diff)
    qed
    ultimately show ?thesis using k False x by simp
  qed
qed

lemma fl64_err:
  assumes "0 < x"
  shows "\<bar>fl64 x - x\<bar> \<le> x / 2 ^ 53"
proof -
  define e where "e = ilog2 x - 52"
  define s :: rat where "s = 2 powi e"
  define m where "m = round_even (x / s)"
  have s: "0 < s" unfolding s_def by simp
  have f: "fl64 x = of_int m * s"
    using assms unfolding fl64_def m_def s_def e_def by (simp add: Let_def)
  have "\<bar>of_int m - x / s\<bar> \<le> 1 / 2" unfolding m_def by (rule round_even_err)
  then have "\<bar>of_int m - x / s\<bar> * s \<le> 1 / 2 * s" using s by (intro mult_right_mono) auto
  moreover have "\<bar>of_int m - x / s\<bar> * s = \<bar>of_int m * s - x\<bar>"
  proof -
    have "\<bar>of_int m - x / s\<bar> * s = \<bar>(of_int m - x / s) * s\<bar>" using s by (simp add: abs_mult)
    also have "(of_int m - x / s) * s = of_int m * s - x" using s by (simp add: field_simps)
    finally show ?thesis .
  qed
  ultimately have err: "\<bar>fl64 x - x\<bar> \<le> s / 2" using f by simp
  have "2 powi (ilog2 x) \<le> x" by (rule ilog2_le [OF assms])
  moreover have "(2::rat) powi (ilog2 x) = s * 2 ^ 52"
  proof -
    have "ilog2 x = e + 52" unfolding e_def by simp
    then show ?thesis unfolding s_def by (simp add: power_int_add)
  qed
  ultimately have "s * 2 ^ 52 \<le> x" by simp
  then have "s / 2 \<le> x / 2 ^ 53" by (simp add: field_simps)
  with err show ?thesis by linarith
qed

lemma fl64_nonneg: "0 \<le> x \<Longrightarrow> 0 \<le> fl64 x"
  unfolding fl64_def Let_def
  by (auto intro!: mult_nonneg_nonneg round_even_nonneg divide_nonneg_nonneg)

lemma fl64_zero: "fl64 0 = 0"
  by (simp add: fl64_def)

lemma ilog2_small:
  assumes "0 < x" "x < 2 ^ 53"
  shows "ilog2 x \<le> 52"
proof (rule ccontr)
  assume "\<not> ilog2 x \<le> 52"
  then have "53 \<le> ilog2 x" by simp
  then have "(2::rat) powi 53 \<le> 2 powi (ilog2 x)" by (intro power_int_increasing) auto
  also have "\<dots> \<le> x" by (rule ilog2_le [OF assms(1)])
  finally show False using assms(2) by simp
qed

lemma fl64_of_int:
  assumes "0 \<le> n" "n < 2 ^ 53"
  shows "fl64 (of_int n) = of_int n"
proof (cases "n = 0")
  case True
  then show ?thesis by (simp add: fl64_zero)
next
  case False
  then have pos: "(0::rat) < of_int n" using assms by simp
  have lt: "(of_int n :: rat) < 2 ^ 53"
  proof -
    have "(of_int n :: rat) < of_int (2 ^ 53)" using assms(2) by (simp only: of_int_less_iff)
    then show ?thesis by simp
  qed
  define k where "k = nat (52 - ilog2 (of_int n :: rat))"
  have e: "ilog2 (\<bar>of_int n\<bar> :: rat) - 52 = - int k"
    using ilog2_small [OF pos lt] pos unfolding k_def by (simp add: abs_if)
  have p: "(2::rat) powi (- int k) = 1 / 2 ^ k" by (simp add: power_int_minus field_simps)
  have "(of_int n :: rat) / (1 / 2 ^ k) = of_int (n * 2 ^ k)" by simp
  then have "round_even ((of_int n :: rat) / (1 / 2 ^ k)) = n * 2 ^ k"
    by (simp only: round_even_of_int)
  then show ?thesis using pos unfolding fl64_def Let_def e p by simp
qed

lemma darken_floor:
  fixes n d :: int
  assumes n: "0 \<le> n" "n \<le> 255" and d: "0 \<le> d" "d \<le> 255"
  defines "P \<equiv> fl64 (of_int n * fl64 (of_int d / 255))"
  shows "0 \<le> \<lfloor>P\<rfloor>" and "\<lfloor>P\<rfloor> \<le> (n * d) div 255"
    and "\<lfloor>P\<rfloor> = (n * d) div 255 \<or> ((n * d) mod 255 = 0 \<and> \<lfloor>P\<rfloor> = (n * d) div 255 - 1)"
proof -
  define q r where "q = (n * d) div 255" and "r = (n * d) mod 255"
  have r: "0 \<le> r" "r \<le> 254" unfolding r_def by simp_all
  have nd: "n * d = q * 255 + r" unfolding q_def r_def by simp
  define t :: rat where "t = of_int (n * d) / 255"
  have t: "t = of_int q + of_int r / 255" unfolding t_def nd by (simp add: field_simps)
  have q0: "0 \<le> q" unfolding q_def using n d by (simp add: pos_imp_zdiv_nonneg_iff)
  have P0: "0 \<le> P" unfolding P_def using n d
    by (intro fl64_nonneg mult_nonneg_nonneg divide_nonneg_nonneg) auto
  then show "0 \<le> \<lfloor>P\<rfloor>" by simp
  have main: "\<lfloor>P\<rfloor> \<le> q \<and> (\<lfloor>P\<rfloor> = q \<or> (r = 0 \<and> \<lfloor>P\<rfloor> = q - 1))"
  proof (cases "n = 0 \<or> d = 0")
    case True
    then have "P = 0" unfolding P_def by (auto simp: fl64_zero)
    moreover have "q = 0" using True unfolding q_def by auto
    ultimately show ?thesis by simp
  next
    case False
    then have np: "0 < n" and dp: "0 < d" using n d by auto
    define x :: rat where "x = of_int d / 255"
    define F where "F = fl64 x"
    define y where "y = of_int n * F"
    have x: "0 < x" "x \<le> 1" unfolding x_def using dp d by auto
    have Fe: "\<bar>F - x\<bar> \<le> x / 2 ^ 53" unfolding F_def by (rule fl64_err [OF x(1)])
    have n1: "(1::rat) \<le> of_int n" "(of_int n :: rat) \<le> 255" using np n by auto
    have tx: "t = of_int n * x" unfolding t_def x_def by simp
    have t0: "0 < t" "t \<le> 255"
    proof -
      show "0 < t" unfolding tx using n1 x by (intro mult_pos_pos) auto
      have "of_int n * x \<le> 255 * 1" using n1 x by (intro mult_mono) auto
      then show "t \<le> 255" unfolding tx by simp
    qed
    have yt: "\<bar>y - t\<bar> \<le> t / 2 ^ 53"
    proof -
      have "\<bar>y - t\<bar> = of_int n * \<bar>F - x\<bar>"
        unfolding y_def tx using n1 by (simp add: abs_mult flip: right_diff_distrib)
      also have "\<dots> \<le> of_int n * (x / 2 ^ 53)" using Fe n1 by (intro mult_left_mono) auto
      finally show ?thesis unfolding tx by simp
    qed
    have y0: "0 < y"
    proof -
      have "t / 2 ^ 53 < t" using t0 by simp
      then show ?thesis using yt by (simp add: abs_if split: if_splits)
    qed
    have Pe: "\<bar>P - y\<bar> \<le> y / 2 ^ 53"
      using fl64_err [OF y0] unfolding P_def y_def F_def x_def by simp
    have y2: "y \<le> 2 * t" using yt t0 by (simp add: abs_if split: if_splits)
    have "\<bar>P - t\<bar> \<le> \<bar>P - y\<bar> + \<bar>y - t\<bar>" by simp
    also have "\<dots> \<le> y / 2 ^ 53 + t / 2 ^ 53" using Pe yt by simp
    also have "\<dots> \<le> (2 * t) / 2 ^ 53 + t / 2 ^ 53" using y2 by (simp add: divide_right_mono)
    also have "\<dots> \<le> (3 * 255) / 2 ^ 53" using t0 by simp
    also have "\<dots> < 1 / 1000" by simp
    finally have close: "\<bar>P - t\<bar> < 1 / 1000" .
    have rr: "(0::rat) \<le> of_int r / 255" "of_int r / 255 \<le> (254::rat) / 255"
      using r by (simp_all add: divide_right_mono)
    have up: "P < of_int (q + 1)" using close t rr by (simp add: abs_if split: if_splits)
    have lo: "of_int (q - 1) \<le> P" using close t rr by (simp add: abs_if split: if_splits)
    have "\<lfloor>P\<rfloor> < q + 1" using up by (simp only: floor_less_iff)
    then have le: "\<lfloor>P\<rfloor> \<le> q" by simp
    have ge: "q - 1 \<le> \<lfloor>P\<rfloor>" using lo by (simp only: le_floor_iff)
    have "q \<le> \<lfloor>P\<rfloor>" if "r \<noteq> 0"
    proof -
      have "1 \<le> r" using that r by simp
      then have "(1::rat) / 255 \<le> of_int r / 255" by (simp add: divide_right_mono)
      then have "of_int q \<le> P" using close t by (simp add: abs_if split: if_splits)
      then show ?thesis by (simp only: le_floor_iff)
    qed
    with le ge show ?thesis by (cases "r = 0") auto
  qed
  from main show "\<lfloor>P\<rfloor> \<le> (n * d) div 255" unfolding q_def by simp
  from main show "\<lfloor>P\<rfloor> = (n * d) div 255 \<or> ((n * d) mod 255 = 0 \<and> \<lfloor>P\<rfloor> = (n * d) div 255 - 1)"
    unfolding q_def r_def by simp
qed

subsection \<open>The darkened buffer\<close>

lemma forEach_once:
  assumes "distinct xs" "x0 \<in> set xs"
    and other: "\<And>x. x \<in> set xs \<Longrightarrow> x \<noteq> x0 \<Longrightarrow>
        maintains (\<lambda>d. I d \<and> Q d) (body x) \<and> maintains (\<lambda>d. I d \<and> P d) (body x)"
    and hit: "\<And>d. I d \<Longrightarrow> Q d \<Longrightarrow> \<exists>d'. body x0 d = Some d' \<and> I d' \<and> P d'"
  shows "I d \<Longrightarrow> Q d \<Longrightarrow> \<exists>d'. forEach xs body d = Some d' \<and> I d' \<and> P d'"
  using assms(1-3)
proof (induction xs arbitrary: d)
  case Nil
  then show ?case by simp
next
  case (Cons x xs)
  show ?case
  proof (cases "x = x0")
    case True
    from hit [OF Cons.prems(1,2)] obtain d1 where d1: "body x0 d = Some d1" "I d1" "P d1" by blast
    have "x0 \<notin> set xs" using Cons.prems(3) True by simp
    then have "maintains (\<lambda>d. I d \<and> P d) (forEach xs body)"
      by (intro maintains_forEach) (use Cons.prems(5) in auto)
    from maintainsD [OF this, of d1] d1 obtain d' where
      "forEach xs body d1 = Some d'" "I d'" "P d'" by blast
    with d1 True show ?thesis by simp
  next
    case False
    then have "maintains (\<lambda>d. I d \<and> Q d) (body x)" using Cons.prems(5) by simp
    from maintainsD [OF this, of d] Cons.prems(1,2) obtain d1 where
      d1: "body x d = Some d1" "I d1" "Q d1" by blast
    have "\<exists>d'. forEach xs body d1 = Some d' \<and> I d' \<and> P d'"
      by (rule Cons.IH [OF d1(2,3)]) (use Cons.prems False in auto)
    with d1 show ?thesis by simp
  qed
qed

lemma fillOverlay_pixel:
  assumes ok: "ctx_ok dc" and i: "i < length (pixels dc)"
  shows "\<exists>dc'. fillOverlay alpha dc = Some dc' \<and> frame_inv (width dc) (height dc) dc' \<and>
           pixels dc' ! i = shade alpha (pixels dc ! i)"
proof -
  let ?W = "width dc" and ?H = "height dc"
  let ?I = "frame_inv ?W ?H"
  from ok have b: "0 \<le> ?W" "0 \<le> ?H" "?W * ?H < 2 ^ 63" "int (length (pixels dc)) = ?W * ?H"
    by (auto simp: ctx_ok_def)
  have n: "int64 (?W * ?H) = ?W * ?H" using b by (intro int64_nonneg) auto
  define j where "j = int i"
  have j: "0 \<le> j" "j < ?W * ?H" "nat j = i" using i b unfolding j_def by auto
  define p0 where "p0 = pixels dc ! i"
  let ?Q = "\<lambda>d. pixels d ! nat j = p0" and ?P = "\<lambda>d. pixels d ! nat j = shade alpha p0"
  let ?body = "\<lambda>i dc.
        case load i dc of
          None \<Rightarrow> None
        | Some existing \<Rightarrow>
            let r = drop_bit 16 existing AND 0xFF;
                g = drop_bit 8 existing AND 0xFF;
                b = existing AND 0xFF
            in store i (argb 255 (darken alpha r) (darken alpha g) (darken alpha b)) dc"
  have body: "?body k d = store k (shade alpha (pixels d ! nat k)) d"
    if "?I d" "0 \<le> k" "k < ?W * ?H" for k d
    by (rule fillOverlay_body [OF that])
  have keep: "maintains (\<lambda>d. ?I d \<and> pixels d ! nat j = c) (?body k)"
    if "k \<in> set [0 .. ?W * ?H - 1]" "k \<noteq> j" for k c
  proof (rule maintainsI)
    fix d assume d: "?I d \<and> pixels d ! nat j = c"
    have k: "0 \<le> k" "k < ?W * ?H" using that by auto
    show "\<exists>dc'. ?body k d = Some dc' \<and> ?I dc' \<and> pixels dc' ! nat j = c"
      unfolding body [OF conjunct1 [OF d] k]
      by (rule store_keeps [OF conjunct1 [OF d] k j(1) conjunct2 [OF d]]) (use that in simp)
  qed
  have hit: "\<exists>d'. ?body j d = Some d' \<and> ?I d' \<and> ?P d'" if "?I d" "?Q d" for d
    unfolding body [OF that(1) j(1,2)] using store_at [OF that(1) j(1,2)] that(2) by simp
  have "\<exists>d'. forEach [0 .. ?W * ?H - 1] ?body dc = Some d' \<and> ?I d' \<and> ?P d'"
  proof (rule forEach_once [where Q = ?Q and ?x0.0 = j])
    show "distinct [0 .. ?W * ?H - 1]" by simp
    show "j \<in> set [0 .. ?W * ?H - 1]" using j by simp
    show "?I dc" by (rule ctx_ok_frame [OF ok])
    show "?Q dc" using j by (simp add: p0_def)
  qed (use keep hit in blast)+
  then show ?thesis
    unfolding fillOverlay_def using j
    by (simp add: p0_def slice_frame [OF ctx_ok_frame [OF ok]] frame_pixelCount [OF ctx_ok_frame [OF ok]])
qed

lemma low_byte: "(x AND 0xFF :: u32) = ucast (ucast x :: byte)"
proof -
  have m: "(0xFF :: u32) = mask 8" by (simp add: mask_eq_exp_minus_1)
  show ?thesis unfolding m by (rule bit_word_eqI) (auto simp: bit_simps)
qed

lemma channel_words:
  "drop_bit 16 p AND 0xFF = (ucast (red p) :: u32)"
  "drop_bit 8 p AND 0xFF = (ucast (green p) :: u32)"
  "p AND 0xFF = (ucast (blue_of p) :: u32)"
  by (simp_all only: low_byte red_def green_def blue_of_def)

lemma uint_sub_255: "uint (255 - alpha :: byte) = 255 - uint alpha"
proof -
  have "uint alpha < 256" using uint_lt2p [of alpha] by simp
  moreover have "0 \<le> uint alpha" by simp
  ultimately have "(255 - uint alpha) mod 256 = 255 - uint alpha"
    by (intro mod_pos_pos_trivial) linarith+
  then show ?thesis by (simp add: uint_word_ariths)
qed

lemma darken_byte:
  fixes c alpha :: byte
  defines "P \<equiv> fl64 (of_int (uint c) * fl64 (of_int (255 - uint alpha) / 255))"
  shows "darken alpha (ucast c) = ucast (darken8 alpha c)"
    and "uint (darken8 alpha c) = \<lfloor>P\<rfloor>"
proof -
  have c: "0 \<le> uint c" "uint c \<le> 255" using uint_lt2p [of c] by simp_all
  have a: "0 \<le> 255 - uint alpha" "255 - uint alpha \<le> 255" using uint_lt2p [of alpha] by simp_all
  note df = darken_floor [OF c a, folded P_def]
  have "uint c * (255 - uint alpha) \<le> uint c * 255" using c a by (intro mult_left_mono) auto
  then have "(uint c * (255 - uint alpha)) div 255 \<le> (uint c * 255) div 255"
    by (intro zdiv_mono1) auto
  then have "(uint c * (255 - uint alpha)) div 255 \<le> uint c" by simp
  then have hi: "\<lfloor>P\<rfloor> \<le> 255" using df(2) c by linarith
  have uc: "uint (ucast c :: u32) = uint c" by (simp add: uint_up_ucast is_up)
  have d: "darken alpha (ucast c) = word_of_int \<lfloor>P\<rfloor>"
    by (simp only: darken_def Let_def P_def uint_sub_255 uc)
  have u32: "uint (word_of_int \<lfloor>P\<rfloor> :: u32) = \<lfloor>P\<rfloor>"
    using df(1) hi by (simp add: uint_word_of_int)
  have u8: "uint (word_of_int \<lfloor>P\<rfloor> :: byte) = \<lfloor>P\<rfloor>"
    using df(1) hi by (simp add: uint_word_of_int)
  have e: "darken8 alpha c = word_of_int \<lfloor>P\<rfloor>"
    unfolding darken8_def d by (simp add: ucast_eq u32)
  show "uint (darken8 alpha c) = \<lfloor>P\<rfloor>" unfolding e by (rule u8)
  show "darken alpha (ucast c) = ucast (darken8 alpha c)"
    unfolding d e by (simp add: ucast_eq u8)
qed

lemma shade_channels:
  "red (shade alpha p) = darken8 alpha (red p)"
  "green (shade alpha p) = darken8 alpha (green p)"
  "blue_of (shade alpha p) = darken8 alpha (blue_of p)"
  "alpha_of (shade alpha p) = 255"
  unfolding shade_def channel_words(1,2)
  unfolding channel_words(3) darken_byte(1)
  by (simp_all add: channels_argb alpha_argb)

lemma darken8_scaled: "scaled (255 - uint alpha) c (darken8 alpha c)"
proof -
  have c: "0 \<le> uint c" "uint c \<le> 255" using uint_lt2p [of c] by simp_all
  have a: "0 \<le> 255 - uint alpha" "255 - uint alpha \<le> 255" using uint_lt2p [of alpha] by simp_all
  from darken_floor(3) [OF c a] show ?thesis
    unfolding scaled_def Let_def darken_byte(2) .
qed

lemma darken8_identity: "darken8 0 c = c"
proof -
  have c: "0 \<le> uint c" "uint c < 2 ^ 53" using uint_lt2p [of c] by simp_all
  have one: "fl64 (of_int (255 - uint (0::byte)) / 255) = 1"
    using fl64_of_int [of 1] by simp
  have "uint (darken8 0 c) = uint c"
    unfolding darken_byte(2) one by (simp only: mult_1_right fl64_of_int [OF c] floor_of_int)
  then show ?thesis by (simp only: word_uint_eq_iff)
qed

lemma darken8_white: "darken8 128 255 = 127"
  by code_simp

text \<open>
  C6 as stated fails. Read with the factor as the parameter of \<^verbatim>\<open>fillOverlay\<close>, the value 255
  turns a white pixel black instead of leaving it. Read with the factor as \<open>255 - alpha\<close>, the
  factor 195 (\<^verbatim>\<open>alpha = 60\<close>) takes the channel value 153 to 116, where the truncated quotient
  \<open>153 * 195 div 255\<close> is 117.
\<close>

theorem C6_counterexample:
  "fillOverlay 255 dc_white =
     Some \<lparr>pixels = [0xFF000000], width = 1, height = 1, writes = [0]\<rparr> \<and>
   fillOverlay 60 dc_gray =
     Some \<lparr>pixels = [0xFF747474], width = 1, height = 1, writes = [0]\<rparr> \<and>
   (0x99 * (255 - 60)) div 255 = (0x75 :: int)"
  by code_simp

text \<open>
  C6, amended. \<^verbatim>\<open>fillOverlay\<close> with opacity \<open>alpha\<close> darkens by the factor \<open>f = 255 - alpha\<close>: on a
  well-formed context it returns, keeps the size of the buffer, sets the alpha of every
  pixel to 255 and takes every red, green and blue channel \<open>c\<close> to the truncated quotient
  \<open>c * f div 255\<close>, or to one less in cases where \<open>c * f\<close> is a multiple of 255 (the product
  is rounded in \<^verbatim>\<open>float64\<close> before it is truncated). With \<open>f = 255\<close>, that is
  \<^verbatim>\<open>fillOverlay(0)\<close>, the three channels are unchanged; with \<open>f = 127\<close>, the
  \<^verbatim>\<open>fillOverlay(128)\<close> of the frame, a channel at 255 becomes 127.
\<close>

theorem C6_fillOverlay_scales:
  assumes "ctx_ok dc"
  shows "\<exists>dc'. fillOverlay alpha dc = Some dc' \<and> length (pixels dc') = length (pixels dc) \<and>
     (\<forall>i < length (pixels dc).
        let p = pixels dc ! i; p' = pixels dc' ! i; f = 255 - uint alpha
        in alpha_of p' = 255 \<and>
           scaled f (red p) (red p') \<and> scaled f (green p) (green p') \<and>
           scaled f (blue_of p) (blue_of p') \<and>
           (f = 255 \<longrightarrow> red p' = red p \<and> green p' = green p \<and> blue_of p' = blue_of p) \<and>
           (f = 127 \<longrightarrow> (red p = 255 \<longrightarrow> red p' = 127) \<and> (green p = 255 \<longrightarrow> green p' = 127) \<and>
                        (blue_of p = 255 \<longrightarrow> blue_of p' = 127)))"
proof -
  let ?W = "width dc" and ?H = "height dc"
  from assms have b: "0 \<le> ?W" "0 \<le> ?H" "?W * ?H < 2 ^ 63"
    by (auto simp: ctx_ok_def)
  from maintainsD [OF maintains_fillOverlay [OF b] ctx_ok_frame [OF assms]]
  obtain dc' where d: "fillOverlay alpha dc = Some dc'" "frame_inv ?W ?H dc'" by blast
  have len: "length (pixels dc') = length (pixels dc)"
    using d(2) assms by (simp add: frame_inv_def ctx_ok_def)
  have px: "pixels dc' ! i = shade alpha (pixels dc ! i)" if "i < length (pixels dc)" for i
    using fillOverlay_pixel [OF assms that, of alpha] d(1) by auto
  have id: "darken8 alpha c = c" if "255 - uint alpha = 255" for c
  proof -
    have "uint alpha = uint (0 :: byte)" using that by simp
    then have "alpha = 0" by (simp only: word_uint_eq_iff)
    then show ?thesis by (simp add: darken8_identity)
  qed
  have wh: "darken8 alpha 255 = 127" if "255 - uint alpha = 127"
  proof -
    have "uint alpha = uint (128 :: byte)" using that by simp
    then have "alpha = 128" by (simp only: word_uint_eq_iff)
    then show ?thesis by (simp only: darken8_white)
  qed
  show ?thesis
    apply (rule exI [of _ dc'])
    using d(1) len
    by (auto simp: px Let_def shade_channels darken8_scaled id wh)
qed

theorem C6_witness:
  "ctx_ok dc_white \<and>
   fillOverlay 128 dc_white =
     Some \<lparr>pixels = [0xFF7F7F7F], width = 1, height = 1, writes = [0]\<rparr> \<and>
   (\<exists>dc'. fillOverlay 128 dc_white = Some dc' \<and>
      alpha_of (pixels dc' ! 0) = 255 \<and> scaled 127 255 (red (pixels dc' ! 0)) \<and>
      red (pixels dc' ! 0) = 127)"
proof -
  have h: "ctx_ok dc_white" by (simp add: ctx_ok_def dc_white_def)
  have e: "fillOverlay 128 dc_white =
     Some \<lparr>pixels = [0xFF7F7F7F], width = 1, height = 1, writes = [0]\<rparr>"
    by code_simp
  have w: "red (pixels dc_white ! 0) = 255" "length (pixels dc_white) = 1" "255 - uint (128 :: byte) = 127"
    by (simp_all add: dc_white_def red_def)
  from C6_fillOverlay_scales [OF h, of 128] obtain dc' where
    d: "fillOverlay 128 dc_white = Some dc'"
    and a: "\<forall>i < length (pixels dc_white).
        let p = pixels dc_white ! i; p' = pixels dc' ! i; f = 255 - uint (128 :: byte)
        in alpha_of p' = 255 \<and>
           scaled f (red p) (red p') \<and> scaled f (green p) (green p') \<and>
           scaled f (blue_of p) (blue_of p') \<and>
           (f = 255 \<longrightarrow> red p' = red p \<and> green p' = green p \<and> blue_of p' = blue_of p) \<and>
           (f = 127 \<longrightarrow> (red p = 255 \<longrightarrow> red p' = 127) \<and> (green p = 255 \<longrightarrow> green p' = 127) \<and>
                        (blue_of p = 255 \<longrightarrow> blue_of p' = 127))"
    by blast
  have lt: "0 < length (pixels dc_white)" by (simp add: w)
  from a [rule_format, OF lt]
  have "alpha_of (pixels dc' ! 0) = 255 \<and> scaled 127 255 (red (pixels dc' ! 0)) \<and>
        red (pixels dc' ! 0) = 127"
    unfolding Let_def w by blast
  with d h e show ?thesis by blast
qed

end
